theory Spec2Isabelle
  imports Main
begin

section \<open>JavaScript values, the object heap and structured cloning\<close>

text \<open>
  The adapter stores \<^verbatim>\<open>unknown\<close> JavaScript values. A value is a primitive, a function
  or a reference to an object that lives in the heap and can be reached, and mutated,
  through every copy of the reference. Numbers are modelled as integers: no operation of
  the adapter computes with them.
\<close>

datatype prim = Undefined | Null | Boolean bool | Number int | String string

datatype jsval = Prim prim | Fun string | Ref nat

text \<open>
  A heap cell is a plain object (its property names, in order, and as many property
  values) or an array. The heap is the list of all cells ever allocated; the address of a
  cell is its position, so a new object gets the address \<open>length h\<close>.
\<close>

datatype shape = ObjectShape "string list" | ArrayShape

datatype cell = Cell shape "jsval list"

type_synonym heap = "cell list"

datatype error =
    StorageDeleted
  | ContractViolation
  | DataCloneError

fun message :: "error \<Rightarrow> string" where
  "message StorageDeleted = ''This Storage was deleted!''"
| "message ContractViolation = '''wait({...})': Use 'resolve' OR 'reject'!''"
| "message DataCloneError = ''DataCloneError''"

text \<open>
  \<^verbatim>\<open>structuredClone\<close> is the host platform's algorithm, not code of this repository. It
  walks the object graph of the value with a memory, a map from each object it has met to
  the copy it made of it: a primitive is returned as it is; a function is not cloneable
  (\<^verbatim>\<open>DataCloneError\<close>); an object that is in the memory is answered by its copy, which
  keeps shared objects shared and closes cycles; any other object gets a new, empty
  object of the same shape, which is entered into the memory before its property values
  are cloned in order and stored in it. The values covered are plain objects and arrays
  over primitives and functions.

  \<open>clone n N h m v\<close> is that walk: \<open>N\<close> is the length of the heap when the walk began (the
  objects below \<open>N\<close> are the source, the copies are allocated from \<open>N\<close> on), \<open>m\<close> the memory
  and \<open>n\<close> the depth to which the walk may still descend. Every descent enters a new
  source object into the memory, so the depth never exceeds the number of source objects,
  and \<open>structuredClone\<close> starts the walk with exactly that many (\<open>length h\<close>): the bound is
  never hit, see \<open>copyable_structuredClone\<close>. A reference beyond the heap (which no
  program can make) is answered like a function.
\<close>

type_synonym memory = "nat \<rightharpoonup> nat"

fun clone :: "nat \<Rightarrow> nat \<Rightarrow> heap \<Rightarrow> memory \<Rightarrow> jsval \<Rightarrow> (heap \<times> memory \<times> jsval) option"
  and clone_list :: "nat \<Rightarrow> nat \<Rightarrow> heap \<Rightarrow> memory \<Rightarrow> jsval list \<Rightarrow> (heap \<times> memory \<times> jsval list) option" where
  "clone n N h m (Prim p) = Some (h, m, Prim p)"
| "clone n N h m (Fun f) = None"
| "clone 0 N h m (Ref a) = (case m a of Some b \<Rightarrow> Some (h, m, Ref b) | None \<Rightarrow> None)"
| "clone (Suc n) N h m (Ref a) =
     (case m a of
        Some b \<Rightarrow> Some (h, m, Ref b)
      | None \<Rightarrow>
          if a < N
          then (case h ! a of Cell sh vs \<Rightarrow>
                  (case clone_list n N (h @ [Cell sh []]) (m(a \<mapsto> length h)) vs of
                     None \<Rightarrow> None
                   | Some (h', m', vs') \<Rightarrow> Some (h'[length h := Cell sh vs'], m', Ref (length h))))
          else None)"
| "clone_list n N h m [] = Some (h, m, [])"
| "clone_list n N h m (v # vs) =
     (case clone n N h m v of
        None \<Rightarrow> None
      | Some (h1, m1, v') \<Rightarrow>
          (case clone_list n N h1 m1 vs of
             None \<Rightarrow> None
           | Some (h2, m2, vs') \<Rightarrow> Some (h2, m2, v' # vs')))"

definition structuredClone :: "heap \<Rightarrow> jsval \<Rightarrow> error + (heap \<times> jsval)" where
  "structuredClone h v =
     (case clone (length h) (length h) h Map.empty v of
        None \<Rightarrow> Inl DataCloneError
      | Some (h', m', v') \<Rightarrow> Inr (h', v'))"

subsection \<open>What a clone is\<close>

text \<open>The objects of a value: the addresses that can be reached from it in the heap.\<close>

inductive_set objects :: "heap \<Rightarrow> jsval \<Rightarrow> nat set" for h :: heap and v :: jsval where
  root: "v = Ref a \<Longrightarrow> a \<in> objects h v"
| step: "b \<in> objects h v \<Longrightarrow> b < length h \<Longrightarrow> h ! b = Cell sh vs \<Longrightarrow> Ref a \<in> set vs
         \<Longrightarrow> a \<in> objects h v"

text \<open>A value is structurally copyable when neither it nor any property of any of its
  objects is a function, and all its objects are in the heap. Cycles and shared objects
  are allowed.\<close>

definition copyable :: "heap \<Rightarrow> jsval \<Rightarrow> bool" where
  "copyable h v =
     ((\<forall>f. v \<noteq> Fun f) \<and>
      (\<forall>a \<in> objects h v. a < length h \<and>
         (\<forall>sh vs. h ! a = Cell sh vs \<longrightarrow> (\<forall>f. Fun f \<notin> set vs))))"

text \<open>
  \<open>copyOf m h v h' v'\<close>: the value \<open>v'\<close> in the heap \<open>h'\<close> is a copy of \<open>v\<close> in \<open>h\<close>, object
  for object. The renaming \<open>m\<close> takes the objects of \<open>v\<close> one-to-one to objects of \<open>h'\<close> of
  the same shape, whose property values are the original's, renamed; so the copy has the
  shape of the original, with its shared objects and its cycles.
\<close>

fun rename :: "(nat \<Rightarrow> nat) \<Rightarrow> jsval \<Rightarrow> jsval" where
  "rename m (Ref a) = Ref (m a)"
| "rename m (Prim p) = Prim p"
| "rename m (Fun f) = Fun f"

fun renameCell :: "(nat \<Rightarrow> nat) \<Rightarrow> cell \<Rightarrow> cell" where
  "renameCell m (Cell sh vs) = Cell sh (map (rename m) vs)"

definition copyOf :: "(nat \<Rightarrow> nat) \<Rightarrow> heap \<Rightarrow> jsval \<Rightarrow> heap \<Rightarrow> jsval \<Rightarrow> bool" where
  "copyOf m h v h' v' =
     (v' = rename m v \<and> inj_on m (objects h v) \<and>
      (\<forall>a \<in> objects h v. a < length h \<and> m a < length h' \<and> h' ! m a = renameCell m (h ! a)))"

text \<open>
  What a value looks like to a deep comparison that follows references to the depth \<open>n\<close>
  (\<open>Cut\<close> where it stops). Two values are deep-equal when they unfold alike to every
  depth.
\<close>

datatype tree = Leaf prim | FunLeaf string | Cut | Node shape "tree list"

fun unfold :: "nat \<Rightarrow> heap \<Rightarrow> jsval \<Rightarrow> tree" where
  "unfold n h (Prim p) = Leaf p"
| "unfold n h (Fun f) = FunLeaf f"
| "unfold 0 h (Ref a) = Cut"
| "unfold (Suc n) h (Ref a) =
     (if a < length h
      then (case h ! a of Cell sh vs \<Rightarrow> Node sh (map (unfold n h) vs))
      else Cut)"

section \<open>The native Map\<close>

text \<open>
  A JavaScript \<^verbatim>\<open>Map\<close> iterates in insertion order: \<^verbatim>\<open>set\<close> on a key that is present
  replaces the value where the entry stands, \<^verbatim>\<open>set\<close> on a new key appends an entry,
  \<^verbatim>\<open>delete\<close> drops the entry, \<^verbatim>\<open>get\<close> of a missing key is \<^verbatim>\<open>undefined\<close>.
  \<^verbatim>\<open>Array.from(map)\<close> is the list of entries itself.
\<close>

type_synonym jsmap = "(string \<times> jsval) list"

fun Map_get :: "jsmap \<Rightarrow> string \<Rightarrow> jsval" where
  "Map_get [] k = Prim Undefined"
| "Map_get ((k', v) # m) k = (if k' = k then v else Map_get m k)"

fun Map_set :: "jsmap \<Rightarrow> string \<Rightarrow> jsval \<Rightarrow> jsmap" where
  "Map_set [] k v = [(k, v)]"
| "Map_set ((k', v') # m) k v = (if k' = k then (k, v) # m else (k', v') # Map_set m k v)"

definition Map_delete :: "jsmap \<Rightarrow> string \<Rightarrow> jsmap" where
  "Map_delete m k = filter (\<lambda>e. fst e \<noteq> k) m"

definition Map_clear :: "jsmap \<Rightarrow> jsmap" where
  "Map_clear m = []"

definition Map_size :: "jsmap \<Rightarrow> nat" where
  "Map_size m = length m"

definition Map_keys :: "jsmap \<Rightarrow> string list" where
  "Map_keys m = map fst m"

text \<open>\<^verbatim>\<open>Array.from(this.storage)[index]?.[0]\<close>: the key at a position, \<^verbatim>\<open>undefined\<close>
  (\<open>None\<close>) when the array has no element there.\<close>

definition keyAt :: "jsmap \<Rightarrow> int \<Rightarrow> string option" where
  "keyAt m index =
     (if 0 \<le> index \<and> index < int (length m) then Some (fst (m ! nat index)) else None)"

section \<open>MockInterface: the synchronous methods\<close>

text \<open>
  The fields of a \<^verbatim>\<open>MockInterface\<close> instance, together with the heap of the program it
  runs in (the adapter allocates there when it clones).
\<close>

record MockInterface =
  heap :: heap
  storageName :: string
  isDeleted :: bool
  storage :: jsmap

text \<open>Modelled from the spec: \<^verbatim>\<open>defaultStorageName\<close> is a constant of the storage-facade
  package, which is not under src/; the spec calls it a shared default name. No theorem
  depends on its value.\<close>

definition defaultStorageName :: string where
  "defaultStorageName = ''storage''"

definition newMockInterface :: "heap \<Rightarrow> MockInterface" where
  "newMockInterface h = \<lparr>heap = h, storageName = '''', isDeleted = False, storage = []\<rparr>"

definition checkStorage :: "MockInterface \<Rightarrow> error + unit" where
  "checkStorage w = (if isDeleted w then Inl StorageDeleted else Inr ())"

definition initSync :: "string option \<Rightarrow> MockInterface \<Rightarrow> error + MockInterface" where
  "initSync name w =
     Inr (w\<lparr>storageName := (case name of None \<Rightarrow> defaultStorageName | Some n \<Rightarrow> n)\<rparr>)"

definition getItemSync :: "string \<Rightarrow> MockInterface \<Rightarrow> error + (jsval \<times> MockInterface)" where
  "getItemSync key w =
     (case checkStorage w of
        Inl e \<Rightarrow> Inl e
      | Inr _ \<Rightarrow>
          (case structuredClone (heap w) (Map_get (storage w) key) of
             Inl e \<Rightarrow> Inl e
           | Inr (h', v) \<Rightarrow> Inr (v, w\<lparr>heap := h'\<rparr>)))"

definition setItemSync :: "string \<Rightarrow> jsval \<Rightarrow> MockInterface \<Rightarrow> error + MockInterface" where
  "setItemSync key val w =
     (case checkStorage w of
        Inl e \<Rightarrow> Inl e
      | Inr _ \<Rightarrow>
          (case structuredClone (heap w) val of
             Inl e \<Rightarrow> Inl e
           | Inr (h', v) \<Rightarrow> Inr (w\<lparr>heap := h', storage := Map_set (storage w) key v\<rparr>)))"

definition removeItemSync :: "string \<Rightarrow> MockInterface \<Rightarrow> error + MockInterface" where
  "removeItemSync key w =
     (case checkStorage w of
        Inl e \<Rightarrow> Inl e
      | Inr _ \<Rightarrow> Inr (w\<lparr>storage := Map_delete (storage w) key\<rparr>))"

definition clearSync :: "MockInterface \<Rightarrow> error + MockInterface" where
  "clearSync w =
     (case checkStorage w of
        Inl e \<Rightarrow> Inl e
      | Inr _ \<Rightarrow> Inr (w\<lparr>storage := Map_clear (storage w)\<rparr>))"

definition sizeSync :: "MockInterface \<Rightarrow> error + nat" where
  "sizeSync w =
     (case checkStorage w of
        Inl e \<Rightarrow> Inl e
      | Inr _ \<Rightarrow> Inr (Map_size (storage w)))"

definition keySync :: "int \<Rightarrow> MockInterface \<Rightarrow> error + string option" where
  "keySync index w =
     (case checkStorage w of
        Inl e \<Rightarrow> Inl e
      | Inr _ \<Rightarrow> Inr (keyAt (storage w) index))"

definition deleteStorageSync :: "MockInterface \<Rightarrow> error + MockInterface" where
  "deleteStorageSync w =
     (case checkStorage w of
        Inl e \<Rightarrow> Inl e
      | Inr _ \<Rightarrow> Inr (w\<lparr>storage := Map_clear (storage w), isDeleted := True\<rparr>))"

section \<open>The deferred-operation harness\<close>

text \<open>
  What a deferred operation resolves or rejects with: the \<^verbatim>\<open>Ok\<close> marker object of
  storage-facade, a JavaScript value, or an \<^verbatim>\<open>Error\<close>.
\<close>

datatype payload = Ok | Val jsval | Err error

text \<open>The closures that the adapter passes as \<^verbatim>\<open>action\<close>, one constructor per
  arrow function of the source, with the variables it captures.\<close>

datatype action =
    InitAction "string option"
  | SetAction string jsval
  | DeleteAction string
  | ClearAction
  | DeleteStorageAction

record DelaySetup =
  resolve :: "payload option"
  reject :: "payload option"
  action :: "action option"
  delay :: "nat option"

datatype promise = Pending | Fulfilled payload | Rejected payload

text \<open>The \<^verbatim>\<open>resolve\<close> and \<^verbatim>\<open>reject\<close> functions of a promise: only the first call
  settles it.\<close>

fun doResolve :: "promise \<Rightarrow> payload \<Rightarrow> promise" where
  "doResolve Pending d = Fulfilled d"
| "doResolve p d = p"

fun doReject :: "promise \<Rightarrow> payload \<Rightarrow> promise" where
  "doReject Pending d = Rejected d"
| "doReject p d = p"

fun runAction :: "action \<Rightarrow> MockInterface \<Rightarrow> error + MockInterface" where
  "runAction (InitAction name) w =
     Inr (w\<lparr>storageName := (case name of None \<Rightarrow> defaultStorageName | Some n \<Rightarrow> n)\<rparr>)"
| "runAction (SetAction key val) w =
     (case structuredClone (heap w) val of
        Inl e \<Rightarrow> Inl e
      | Inr (h', v) \<Rightarrow> Inr (w\<lparr>heap := h', storage := Map_set (storage w) key v\<rparr>))"
| "runAction (DeleteAction key) w = Inr (w\<lparr>storage := Map_delete (storage w) key\<rparr>)"
| "runAction ClearAction w = Inr (w\<lparr>storage := Map_clear (storage w)\<rparr>)"
| "runAction DeleteStorageAction w =
     Inr (w\<lparr>storage := Map_clear (storage w), isDeleted := True\<rparr>)"

text \<open>
  What the timer callback of \<^verbatim>\<open>wait(setup)\<close> leaves behind: the state of the promise
  that \<^verbatim>\<open>wait\<close> returned, the exception that escaped the callback (if any), and the
  adapter.
\<close>

record firing =
  settled :: promise
  uncaught :: "error option"
  final :: MockInterface

text \<open>
  \<open>wait setup w\<close> runs the timer callback of \<^verbatim>\<open>wait(setup)\<close> on the adapter \<open>w\<close> that
  the timer finds when it fires. The statements run in the order of the source: the
  rejection on a deleted storage does not return, the \<^verbatim>\<open>throw\<close> and a throwing action
  end the callback. When the timer fires is left to the sequence of events (see \<open>react\<close>).
\<close>

definition wait :: "DelaySetup \<Rightarrow> MockInterface \<Rightarrow> firing" where
  "wait setup w =
     (let p0 = (if isDeleted w then doReject Pending (Err StorageDeleted) else Pending);
          bothSet = (resolve setup \<noteq> None \<and> reject setup \<noteq> None);
          bothNotSet = (resolve setup = None \<and> reject setup = None)
      in if bothSet \<or> bothNotSet
         then \<lparr>settled = p0, uncaught = Some ContractViolation, final = w\<rparr>
         else
           (case (case action setup of None \<Rightarrow> Inr w | Some a \<Rightarrow> runAction a w) of
              Inl e \<Rightarrow> \<lparr>settled = p0, uncaught = Some e, final = w\<rparr>
            | Inr w' \<Rightarrow>
                (let p1 = (case resolve setup of None \<Rightarrow> p0 | Some d \<Rightarrow> doResolve p0 d);
                     p2 = (case reject setup of None \<Rightarrow> p1 | Some d \<Rightarrow> doReject p1 d)
                 in \<lparr>settled = p2, uncaught = None, final = w'\<rparr>)))"

section \<open>MockInterface: the asynchronous methods\<close>

text \<open>
  An asynchronous method evaluates the argument of \<^verbatim>\<open>this.wait({...})\<close> at once and
  hands the descriptor to \<open>wait\<close>. The model returns the descriptor and the adapter after
  this first, synchronous part (\<open>Inl\<close>: an exception there, which rejects the promise of
  the \<^verbatim>\<open>async\<close> method at once).
\<close>

definition resolving :: "payload \<Rightarrow> action option \<Rightarrow> DelaySetup" where
  "resolving d a = \<lparr>resolve = Some d, reject = None, action = a, delay = None\<rparr>"

definition initAsync :: "string option \<Rightarrow> MockInterface \<Rightarrow> error + (DelaySetup \<times> MockInterface)" where
  "initAsync name w = Inr (resolving Ok (Some (InitAction name)), w)"

definition getItemAsync :: "string \<Rightarrow> MockInterface \<Rightarrow> error + (DelaySetup \<times> MockInterface)" where
  "getItemAsync key w =
     (case structuredClone (heap w) (Map_get (storage w) key) of
        Inl e \<Rightarrow> Inl e
      | Inr (h', v) \<Rightarrow> Inr (resolving (Val v) None, w\<lparr>heap := h'\<rparr>))"

definition setItemAsync :: "string \<Rightarrow> jsval \<Rightarrow> MockInterface \<Rightarrow> error + (DelaySetup \<times> MockInterface)" where
  "setItemAsync key val w = Inr (resolving Ok (Some (SetAction key val)), w)"

definition removeItemAsync :: "string \<Rightarrow> MockInterface \<Rightarrow> error + (DelaySetup \<times> MockInterface)" where
  "removeItemAsync key w = Inr (resolving Ok (Some (DeleteAction key)), w)"

definition clearAsync :: "MockInterface \<Rightarrow> error + (DelaySetup \<times> MockInterface)" where
  "clearAsync w = Inr (resolving Ok (Some ClearAction), w)"

definition sizeAsync :: "MockInterface \<Rightarrow> error + (DelaySetup \<times> MockInterface)" where
  "sizeAsync w =
     Inr (resolving (Val (Prim (Number (int (Map_size (storage w)))))) None, w)"

definition keyValue :: "string option \<Rightarrow> jsval" where
  "keyValue k = (case k of None \<Rightarrow> Prim Undefined | Some s \<Rightarrow> Prim (String s))"

definition keyAsync :: "int \<Rightarrow> MockInterface \<Rightarrow> error + (DelaySetup \<times> MockInterface)" where
  "keyAsync index w = Inr (resolving (Val (keyValue (keyAt (storage w) index))) None, w)"

definition deleteStorageAsync :: "MockInterface \<Rightarrow> error + (DelaySetup \<times> MockInterface)" where
  "deleteStorageAsync w = Inr (resolving Ok (Some DeleteStorageAction), w)"

section \<open>Sequences of operations\<close>

text \<open>
  A client calls methods of one adapter, in the synchronous or the asynchronous form, and
  the timers of pending deferred operations fire in between, in any order.
\<close>

datatype call =
    Init "string option"
  | GetItem string
  | SetItem string jsval
  | RemoveItem string
  | Clear
  | Size
  | KeyAt int
  | DeleteStorage

datatype outcome = Threw error | Returned payload

definition callSync :: "call \<Rightarrow> MockInterface \<Rightarrow> outcome \<times> MockInterface" where
  "callSync c w =
     (case c of
        Init name \<Rightarrow>
          (case initSync name w of Inl e \<Rightarrow> (Threw e, w) | Inr w' \<Rightarrow> (Returned Ok, w'))
      | GetItem key \<Rightarrow>
          (case getItemSync key w of Inl e \<Rightarrow> (Threw e, w) | Inr (v, w') \<Rightarrow> (Returned (Val v), w'))
      | SetItem key val \<Rightarrow>
          (case setItemSync key val w of
             Inl e \<Rightarrow> (Threw e, w) | Inr w' \<Rightarrow> (Returned (Val (Prim Undefined)), w'))
      | RemoveItem key \<Rightarrow>
          (case removeItemSync key w of
             Inl e \<Rightarrow> (Threw e, w) | Inr w' \<Rightarrow> (Returned (Val (Prim Undefined)), w'))
      | Clear \<Rightarrow>
          (case clearSync w of
             Inl e \<Rightarrow> (Threw e, w) | Inr w' \<Rightarrow> (Returned (Val (Prim Undefined)), w'))
      | Size \<Rightarrow>
          (case sizeSync w of
             Inl e \<Rightarrow> (Threw e, w) | Inr n \<Rightarrow> (Returned (Val (Prim (Number (int n)))), w))
      | KeyAt index \<Rightarrow>
          (case keySync index w of
             Inl e \<Rightarrow> (Threw e, w) | Inr k \<Rightarrow> (Returned (Val (keyValue k)), w))
      | DeleteStorage \<Rightarrow>
          (case deleteStorageSync w of
             Inl e \<Rightarrow> (Threw e, w) | Inr w' \<Rightarrow> (Returned (Val (Prim Undefined)), w')))"

definition callAsync :: "call \<Rightarrow> MockInterface \<Rightarrow> error + (DelaySetup \<times> MockInterface)" where
  "callAsync c w =
     (case c of
        Init name \<Rightarrow> initAsync name w
      | GetItem key \<Rightarrow> getItemAsync key w
      | SetItem key val \<Rightarrow> setItemAsync key val w
      | RemoveItem key \<Rightarrow> removeItemAsync key w
      | Clear \<Rightarrow> clearAsync w
      | Size \<Rightarrow> sizeAsync w
      | KeyAt index \<Rightarrow> keyAsync index w
      | DeleteStorage \<Rightarrow> deleteStorageAsync w)"

datatype event = CallSync call | CallAsync call | TimerFires nat

text \<open>What the client sees of an event: the outcome of a synchronous call; that a
  deferred operation is now pending, or was rejected before \<open>wait\<close> was reached; the
  promise of the operation whose timer fired (and the exception that escaped the
  callback); nothing when no such timer is pending.\<close>

datatype observation =
    SyncOutcome call outcome
  | Scheduled call
  | RejectedAtOnce call error
  | TimerOutcome call promise "error option"
  | NoTimer

record system =
  adapter :: MockInterface
  timers :: "(call \<times> DelaySetup) list"

definition react :: "event \<Rightarrow> system \<Rightarrow> observation \<times> system" where
  "react ev s =
     (case ev of
        CallSync c \<Rightarrow>
          (case callSync c (adapter s) of (r, w') \<Rightarrow> (SyncOutcome c r, s\<lparr>adapter := w'\<rparr>))
      | CallAsync c \<Rightarrow>
          (case callAsync c (adapter s) of
             Inl e \<Rightarrow> (RejectedAtOnce c e, s)
           | Inr (d, w') \<Rightarrow> (Scheduled c, s\<lparr>adapter := w', timers := timers s @ [(c, d)]\<rparr>))
      | TimerFires i \<Rightarrow>
          (if i < length (timers s)
           then (case timers s ! i of (c, d) \<Rightarrow>
                   (let f = wait d (adapter s)
                    in (TimerOutcome c (settled f) (uncaught f),
                        s\<lparr>adapter := final f,
                          timers := take i (timers s) @ drop (Suc i) (timers s)\<rparr>)))
           else (NoTimer, s)))"

fun run :: "event list \<Rightarrow> system \<Rightarrow> observation list \<times> system" where
  "run [] s = ([], s)"
| "run (ev # evs) s =
     (case react ev s of (ob, s') \<Rightarrow>
        (case run evs s' of (obs, s'') \<Rightarrow> (ob # obs, s'')))"

definition initial :: "heap \<Rightarrow> system" where
  "initial h = \<lparr>adapter = newMockInterface h, timers = []\<rparr>"

section \<open>Auxiliary notions for the proofs\<close>

text \<open>
  Notions about one run of \<open>clone\<close>, for the proofs. \<open>grows\<close>: the run only appends to the
  heap and to the memory, and the copies it enters lie in what it appended. \<open>copied\<close>:
  every object it entered has its finished copy. \<open>tidy\<close>: the memory is one-to-one and
  points into the heap. \<open>closedIn\<close>: a set of source objects that holds all property
  values of its members, none of them a function.
\<close>

definition grows :: "nat \<Rightarrow> heap \<Rightarrow> memory \<Rightarrow> heap \<Rightarrow> memory \<Rightarrow> bool" where
  "grows N h m h' m' =
     (length h \<le> length h' \<and> (\<forall>x < length h. h' ! x = h ! x) \<and> m \<subseteq>\<^sub>m m' \<and>
      (\<forall>x b. m x = None \<longrightarrow> m' x = Some b \<longrightarrow> x < N \<and> length h \<le> b \<and> b < length h'))"

fun okval :: "memory \<Rightarrow> jsval \<Rightarrow> bool" where
  "okval m (Prim p) = True"
| "okval m (Fun f) = False"
| "okval m (Ref a) = (m a \<noteq> None)"

fun rn :: "memory \<Rightarrow> jsval \<Rightarrow> jsval" where
  "rn m (Ref a) = Ref (the (m a))"
| "rn m (Prim p) = Prim p"
| "rn m (Fun f) = Fun f"

definition copied :: "heap \<Rightarrow> memory \<Rightarrow> heap \<Rightarrow> memory \<Rightarrow> bool" where
  "copied h m h' m' =
     (\<forall>x b. m x = None \<longrightarrow> m' x = Some b \<longrightarrow>
        (\<exists>sh vs. h ! x = Cell sh vs \<and> h' ! b = Cell sh (map (rn m') vs) \<and>
                 (\<forall>u \<in> set vs. okval m' u)))"

definition tidy :: "heap \<Rightarrow> memory \<Rightarrow> bool" where
  "tidy h m = ((\<forall>x b. m x = Some b \<longrightarrow> b < length h) \<and>
               (\<forall>x y b. m x = Some b \<longrightarrow> m y = Some b \<longrightarrow> x = y))"

fun good :: "nat set \<Rightarrow> jsval \<Rightarrow> bool" where
  "good S (Prim p) = True"
| "good S (Fun f) = False"
| "good S (Ref a) = (a \<in> S)"

definition closedIn :: "nat set \<Rightarrow> heap \<Rightarrow> bool" where
  "closedIn S h = (\<forall>a \<in> S. \<forall>sh vs. h ! a = Cell sh vs \<longrightarrow> (\<forall>u \<in> set vs. good S u))"

text \<open>\<open>intact lo hi h h''\<close>: the heap \<open>h''\<close> still holds, at the addresses from \<open>lo\<close> up to
  \<open>hi\<close>, the cells that \<open>h\<close> holds there. Whatever else was allocated or mutated, that
  region was left alone.\<close>

definition intact :: "nat \<Rightarrow> nat \<Rightarrow> heap \<Rightarrow> heap \<Rightarrow> bool" where
  "intact lo hi h h'' = (hi \<le> length h'' \<and> (\<forall>a. lo \<le> a \<and> a < hi \<longrightarrow> h'' ! a = h ! a))"

text \<open>Every stored value can be cloned.\<close>

definition cloneable :: "MockInterface \<Rightarrow> bool" where
  "cloneable w = (\<forall>v \<in> snd ` set (storage w). copyable (heap w) v)"

text \<open>The six guarded data operations, as opposed to \<open>Init\<close> and \<open>DeleteStorage\<close>.\<close>

fun guarded :: "call \<Rightarrow> bool" where
  "guarded (Init name) = False"
| "guarded DeleteStorage = False"
| "guarded c = True"

text \<open>An observation that is compatible with "the operation failed with
  \<open>StorageDeleted\<close>": a guarded synchronous call threw it, the promise of a deferred
  operation was rejected with it when its timer fired, and no guarded call failed in
  another way.\<close>

fun failsDeleted :: "observation \<Rightarrow> bool" where
  "failsDeleted (SyncOutcome c r) = (\<not> guarded c \<or> r = Threw StorageDeleted)"
| "failsDeleted (Scheduled c) = True"
| "failsDeleted (RejectedAtOnce c e) = (\<not> guarded c)"
| "failsDeleted (TimerOutcome c p u) = (\<not> guarded c \<or> p = Rejected (Err StorageDeleted))"
| "failsDeleted NoTimer = True"

text \<open>A sequence of \<open>setItem\<close> calls; an exception ends it.\<close>

fun setItems :: "(string \<times> jsval) list \<Rightarrow> MockInterface \<Rightarrow> error + MockInterface" where
  "setItems [] w = Inr w"
| "setItems ((k, v) # kvs) w =
     (case setItemSync k v w of Inl e \<Rightarrow> Inl e | Inr w' \<Rightarrow> setItems kvs w')"

section \<open>Lemmas: the latch\<close>

lemmas sync_defs = initSync_def getItemSync_def setItemSync_def removeItemSync_def
  clearSync_def sizeSync_def keySync_def deleteStorageSync_def checkStorage_def

lemmas async_defs = initAsync_def getItemAsync_def setItemAsync_def removeItemAsync_def
  clearAsync_def sizeAsync_def keyAsync_def deleteStorageAsync_def resolving_def

lemmas eval_defs = initial_def newMockInterface_def react_def callSync_def callAsync_def
  sync_defs async_defs wait_def structuredClone_def Map_clear_def Map_delete_def
  Map_size_def Map_keys_def keyAt_def keyValue_def Let_def

lemma wait_deleted_settled:
  "isDeleted w \<Longrightarrow> settled (wait d w) = Rejected (Err StorageDeleted)"
  by (auto simp: wait_def Let_def split: sum.splits option.splits)

lemma runAction_keeps_latch:
  "runAction a w = Inr w' \<Longrightarrow> isDeleted w \<Longrightarrow> isDeleted w'"
  by (cases a) (auto split: sum.splits)

lemma wait_keeps_latch: "isDeleted w \<Longrightarrow> isDeleted (final (wait d w))"
  by (auto simp: wait_def Let_def split: sum.splits option.splits dest: runAction_keeps_latch)

lemma callSync_keeps_latch: "isDeleted w \<Longrightarrow> isDeleted (snd (callSync c w))"
  by (cases c) (auto simp: callSync_def sync_defs)

lemma callAsync_keeps_latch: "callAsync c w = Inr (d, w') \<Longrightarrow> isDeleted w \<Longrightarrow> isDeleted w'"
  by (cases c) (auto simp: callAsync_def async_defs split: sum.splits)

lemma react_keeps_latch: "isDeleted (adapter s) \<Longrightarrow> isDeleted (adapter (snd (react ev s)))"
proof (cases ev)
  case (CallSync c)
  assume "isDeleted (adapter s)"
  then show ?thesis
    using CallSync callSync_keeps_latch [of "adapter s" c]
    by (auto simp: react_def split: prod.splits)
next
  case (CallAsync c)
  assume "isDeleted (adapter s)"
  then show ?thesis
    using CallAsync by (auto simp: react_def split: sum.splits dest: callAsync_keeps_latch)
next
  case (TimerFires i)
  assume "isDeleted (adapter s)"
  then show ?thesis
    using TimerFires by (auto simp: react_def Let_def split: prod.splits intro: wait_keeps_latch)
qed

lemma run_keeps_latch: "isDeleted (adapter s) \<Longrightarrow> isDeleted (adapter (snd (run evs s)))"
proof (induction evs arbitrary: s)
  case Nil
  then show ?case by simp
next
  case (Cons ev evs)
  from Cons.prems have "isDeleted (adapter (snd (react ev s)))" by (rule react_keeps_latch)
  then have "isDeleted (adapter (snd (run evs (snd (react ev s)))))" by (rule Cons.IH)
  then show ?case by (auto split: prod.splits)
qed

section \<open>Lemmas: cloning and the heap\<close>

subsection \<open>One run of the walk\<close>

lemma grows_refl: "grows N h m h m"
  by (simp add: grows_def)

lemma map_le_SomeD: "m \<subseteq>\<^sub>m m' \<Longrightarrow> m x = Some b \<Longrightarrow> m' x = Some b"
  by (metis domI map_le_def)

lemma grows_trans:
  assumes "grows N h m h1 m1" "grows N h1 m1 h2 m2"
  shows "grows N h m h2 m2"
proof -
  have 1: "length h \<le> length h2" using assms by (simp add: grows_def)
  have 2: "\<forall>x < length h. h2 ! x = h ! x" using assms by (simp add: grows_def)
  have 3: "m \<subseteq>\<^sub>m m2" using assms unfolding grows_def by (blast intro: map_le_trans)
  have 4: "x < N \<and> length h \<le> b \<and> b < length h2" if "m x = None" "m2 x = Some b" for x b
  proof (cases "m1 x")
    case None
    with assms(2) that(2) have "x < N \<and> length h1 \<le> b \<and> b < length h2"
      unfolding grows_def by blast
    with assms(1) show ?thesis unfolding grows_def by simp
  next
    case (Some b')
    with assms(2) have "m2 x = Some b'" unfolding grows_def by (blast intro: map_le_SomeD)
    with that(2) have "b' = b" by simp
    with Some assms(1) that(1) have "x < N \<and> length h \<le> b \<and> b < length h1"
      unfolding grows_def by blast
    with assms(2) show ?thesis unfolding grows_def by simp
  qed
  from 1 2 3 4 show ?thesis unfolding grows_def by blast
qed

lemma grows_descend:
  assumes g: "grows N (h @ [c]) (m(a \<mapsto> length h)) h1 m1" and a: "m a = None" "a < N"
  shows "grows N h m (h1[length h := c']) m1"
proof -
  from g have len: "length h < length h1" by (simp add: grows_def)
  have 1: "length h \<le> length (h1[length h := c'])" using len by simp
  have 2: "\<forall>x < length h. (h1[length h := c']) ! x = h ! x"
    using g by (auto simp: grows_def nth_append)
  from g have le: "m(a \<mapsto> length h) \<subseteq>\<^sub>m m1" by (simp add: grows_def)
  have 3: "m \<subseteq>\<^sub>m m1"
    unfolding map_le_def
  proof
    fix x assume x: "x \<in> dom m"
    with a(1) have "x \<noteq> a" by auto
    with x le show "m x = m1 x" unfolding map_le_def by (metis domI dom_fun_upd fun_upd_other insertCI option.distinct(1))
  qed
  have 4: "x < N \<and> length h \<le> b \<and> b < length (h1[length h := c'])"
    if "m x = None" "m1 x = Some b" for x b
  proof (cases "x = a")
    case True
    from le have "m1 a = Some (length h)" by (auto intro: map_le_SomeD)
    with True that(2) a(2) len show ?thesis by simp
  next
    case False
    with that(1) have "(m(a \<mapsto> length h)) x = None" by simp
    with g that(2) have "x < N \<and> length (h @ [c]) \<le> b \<and> b < length h1"
      unfolding grows_def by blast
    then show ?thesis by simp
  qed
  from 1 2 3 4 show ?thesis unfolding grows_def by blast
qed

lemma clone_grows:
  "clone n N h m v = Some (h', m', v') \<Longrightarrow> grows N h m h' m'"
  "clone_list n N h m vs = Some (h', m', vs') \<Longrightarrow> grows N h m h' m'"
proof (induction n N h m v and n N h m vs arbitrary: h' m' v' and h' m' vs'
    rule: clone_clone_list.induct)
  case (1 n N h m p)
  then show ?case by (simp add: grows_refl)
next
  case (2 n N h m f)
  then show ?case by simp
next
  case (3 N h m a)
  then show ?case by (auto simp: grows_refl split: option.splits)
next
  case (4 n N h m a)
  show ?case
  proof (cases "m a")
    case (Some b)
    with "4.prems" show ?thesis by (simp add: grows_refl)
  next
    case None
    with "4.prems" have a: "a < N" by (simp split: if_splits)
    obtain sh vs where c: "h ! a = Cell sh vs" by (cases "h ! a")
    from "4.prems" None a c obtain h1 vs1 where
      r: "clone_list n N (h @ [Cell sh []]) (m(a \<mapsto> length h)) vs = Some (h1, m', vs1)"
      and h': "h' = h1[length h := Cell sh vs1]"
      by (auto split: option.splits)
    from "4.IH" [OF None a c r] have "grows N (h @ [Cell sh []]) (m(a \<mapsto> length h)) h1 m'" .
    then show ?thesis unfolding h' using None a by (rule grows_descend)
  qed
next
  case (5 n N h m)
  then show ?case by (simp add: grows_refl)
next
  case (6 n N h m v vs)
  from "6.prems" obtain h1 m1 v1 vs1 where
    c1: "clone n N h m v = Some (h1, m1, v1)"
    and c2: "clone_list n N h1 m1 vs = Some (h', m', vs1)"
    by (auto split: option.splits)
  from "6.IH"(1) [OF c1] have g1: "grows N h m h1 m1" .
  from "6.IH"(2) [OF c1 refl refl c2] have g2: "grows N h1 m1 h' m'" .
  from g1 g2 show ?case by (rule grows_trans)
qed

lemma okval_mono: "okval m u \<Longrightarrow> m \<subseteq>\<^sub>m m' \<Longrightarrow> okval m' u"
  by (cases u) (auto dest: map_le_SomeD)

lemma rn_mono: "okval m u \<Longrightarrow> m \<subseteq>\<^sub>m m' \<Longrightarrow> rn m' u = rn m u"
  by (cases u) (auto dest: map_le_SomeD)

lemma map_rn_mono: "\<forall>u \<in> set vs. okval m u \<Longrightarrow> m \<subseteq>\<^sub>m m' \<Longrightarrow> map (rn m') vs = map (rn m) vs"
  by (simp add: rn_mono)

lemma copied_refl: "copied h m h m"
  by (simp add: copied_def)

lemma copied_trans:
  assumes g1: "grows N h m h1 m1" and g2: "grows N h1 m1 h2 m2" and N: "N \<le> length h"
    and c1: "copied h m h1 m1" and c2: "copied h1 m1 h2 m2"
  shows "copied h m h2 m2"
  unfolding copied_def
proof (intro allI impI)
  fix x b assume x: "m x = None" and b: "m2 x = Some b"
  from g2 have le: "m1 \<subseteq>\<^sub>m m2" by (simp add: grows_def)
  show "\<exists>sh vs. h ! x = Cell sh vs \<and> h2 ! b = Cell sh (map (rn m2) vs) \<and> (\<forall>u \<in> set vs. okval m2 u)"
  proof (cases "m1 x")
    case None
    with c2 b obtain sh vs where 1: "h1 ! x = Cell sh vs"
      and 2: "h2 ! b = Cell sh (map (rn m2) vs)" and 3: "\<forall>u \<in> set vs. okval m2 u"
      unfolding copied_def by blast
    from g2 None b have "x < N" unfolding grows_def by blast
    with N g1 have "h1 ! x = h ! x" unfolding grows_def by simp
    with 1 2 3 show ?thesis by auto
  next
    case (Some b')
    with le b have bb: "b' = b" by (auto dest: map_le_SomeD)
    with c1 x Some obtain sh vs where 1: "h ! x = Cell sh vs"
      and 2: "h1 ! b = Cell sh (map (rn m1) vs)" and 3: "\<forall>u \<in> set vs. okval m1 u"
      unfolding copied_def by blast
    from g1 x Some bb have "b < length h1" unfolding grows_def by blast
    with g2 have "h2 ! b = h1 ! b" unfolding grows_def by simp
    moreover from 3 le have "map (rn m2) vs = map (rn m1) vs" by (rule map_rn_mono)
    moreover from 3 le have "\<forall>u \<in> set vs. okval m2 u" by (blast intro: okval_mono)
    ultimately have "h ! x = Cell sh vs \<and> h2 ! b = Cell sh (map (rn m2) vs) \<and>
        (\<forall>u \<in> set vs. okval m2 u)"
      using 1 2 by simp
    then show ?thesis by blast
  qed
qed

lemma copied_descend:
  assumes g: "grows N (h @ [c0]) (m(a \<mapsto> length h)) h1 m1"
    and c: "copied (h @ [c0]) (m(a \<mapsto> length h)) h1 m1"
    and a: "m a = None" "a < N" and N: "N \<le> length h" and cell: "h ! a = Cell sh vs"
    and ok: "\<forall>u \<in> set vs. okval m1 u"
  shows "copied h m (h1[length h := Cell sh (map (rn m1) vs)]) m1"
  unfolding copied_def
proof (intro allI impI)
  fix x b assume x: "m x = None" and b: "m1 x = Some b"
  from g have len: "length h < length h1" by (simp add: grows_def)
  from g have le: "m(a \<mapsto> length h) \<subseteq>\<^sub>m m1" by (simp add: grows_def)
  show "\<exists>sh' vs'. h ! x = Cell sh' vs' \<and>
      (h1[length h := Cell sh (map (rn m1) vs)]) ! b = Cell sh' (map (rn m1) vs') \<and>
      (\<forall>u \<in> set vs'. okval m1 u)"
  proof (cases "x = a")
    case True
    from le have "m1 a = Some (length h)" by (auto intro: map_le_SomeD)
    with True b have "b = length h" by simp
    with True cell ok len show ?thesis by simp
  next
    case False
    with x have n: "(m(a \<mapsto> length h)) x = None" by simp
    with c b obtain sh' vs' where 1: "(h @ [c0]) ! x = Cell sh' vs'"
      and 2: "h1 ! b = Cell sh' (map (rn m1) vs')" and 3: "\<forall>u \<in> set vs'. okval m1 u"
      unfolding copied_def by blast
    from g n b have "x < N" and bl: "length (h @ [c0]) \<le> b" unfolding grows_def by blast+
    with N have "(h @ [c0]) ! x = h ! x" by (simp add: nth_append)
    moreover from bl have "(h1[length h := Cell sh (map (rn m1) vs)]) ! b = h1 ! b" by simp
    ultimately have "h ! x = Cell sh' vs'"
      and "(h1[length h := Cell sh (map (rn m1) vs)]) ! b = Cell sh' (map (rn m1) vs')"
      using 1 2 by simp_all
    with 3 show ?thesis by blast
  qed
qed

lemma clone_copied:
  "clone n N h m v = Some (h', m', v') \<Longrightarrow> N \<le> length h \<Longrightarrow>
     copied h m h' m' \<and> okval m' v \<and> v' = rn m' v"
  "clone_list n N h m vs = Some (h', m', vs') \<Longrightarrow> N \<le> length h \<Longrightarrow>
     copied h m h' m' \<and> (\<forall>u \<in> set vs. okval m' u) \<and> vs' = map (rn m') vs"
proof (induction n N h m v and n N h m vs arbitrary: h' m' v' and h' m' vs'
    rule: clone_clone_list.induct)
  case (1 n N h m p)
  then show ?case by (auto simp: copied_refl)
next
  case (2 n N h m f)
  then show ?case by simp
next
  case (3 N h m a)
  then show ?case by (auto simp: copied_refl split: option.splits)
next
  case (4 n N h m a)
  show ?case
  proof (cases "m a")
    case (Some b)
    with "4.prems" show ?thesis by (auto simp: copied_refl)
  next
    case None
    with "4.prems" have a: "a < N" by (simp split: if_splits)
    obtain sh vs where c: "h ! a = Cell sh vs" by (cases "h ! a")
    from "4.prems" None a c obtain h1 vs1 where
      r: "clone_list n N (h @ [Cell sh []]) (m(a \<mapsto> length h)) vs = Some (h1, m', vs1)"
      and h': "h' = h1[length h := Cell sh vs1]" and v': "v' = Ref (length h)"
      by (auto split: option.splits)
    from "4.prems"(2) have N': "N \<le> length (h @ [Cell sh []])" by simp
    note ih = "4.IH" [OF None a c r N']
    note cp = ih [THEN conjunct1] and ok = ih [THEN conjunct2, THEN conjunct1]
      and vs1 = ih [THEN conjunct2, THEN conjunct2]
    from clone_grows(2) [OF r] have g: "grows N (h @ [Cell sh []]) (m(a \<mapsto> length h)) h1 m'" .
    then have "m' a = Some (length h)" unfolding grows_def by (auto intro: map_le_SomeD)
    moreover from copied_descend [OF g cp None a "4.prems"(2) c ok]
    have "copied h m h' m'" unfolding h' vs1 .
    ultimately show ?thesis using v' by simp
  qed
next
  case (5 n N h m)
  then show ?case by (auto simp: copied_refl)
next
  case (6 n N h m v vs)
  from "6.prems"(1) obtain h1 m1 v1 vs1 where
    c1: "clone n N h m v = Some (h1, m1, v1)"
    and c2: "clone_list n N h1 m1 vs = Some (h', m', vs1)"
    and vs': "vs' = v1 # vs1"
    by (auto split: option.splits)
  from clone_grows(1) [OF c1] have g1: "grows N h m h1 m1" .
  from clone_grows(2) [OF c2] have g2: "grows N h1 m1 h' m'" .
  from g1 "6.prems"(2) have N1: "N \<le> length h1" by (simp add: grows_def)
  from g2 have le: "m1 \<subseteq>\<^sub>m m'" by (simp add: grows_def)
  note ih1 = "6.IH"(1) [OF c1 "6.prems"(2)]
  note cp1 = ih1 [THEN conjunct1] and ok1 = ih1 [THEN conjunct2, THEN conjunct1]
    and v1 = ih1 [THEN conjunct2, THEN conjunct2]
  note ih2 = "6.IH"(2) [OF c1 refl refl c2 N1]
  note cp2 = ih2 [THEN conjunct1] and ok2 = ih2 [THEN conjunct2, THEN conjunct1]
    and vs1 = ih2 [THEN conjunct2, THEN conjunct2]
  have "okval m' v" using ok1 le by (rule okval_mono)
  moreover have "rn m' v = rn m1 v" using ok1 le by (rule rn_mono)
  ultimately show ?case
    using copied_trans [OF g1 g2 "6.prems"(2) cp1 cp2] ok2 v1 vs1 vs' by simp
qed

lemma tidy_descend: "tidy h m \<Longrightarrow> tidy (h @ [c]) (m(a \<mapsto> length h))"
  unfolding tidy_def by (auto simp: less_Suc_eq split: if_splits)

lemma tidy_update: "tidy h m \<Longrightarrow> tidy (h[i := c]) m"
  by (simp add: tidy_def)

lemma clone_tidy:
  "clone n N h m v = Some (h', m', v') \<Longrightarrow> tidy h m \<Longrightarrow> tidy h' m'"
  "clone_list n N h m vs = Some (h', m', vs') \<Longrightarrow> tidy h m \<Longrightarrow> tidy h' m'"
proof (induction n N h m v and n N h m vs arbitrary: h' m' v' and h' m' vs'
    rule: clone_clone_list.induct)
  case (1 n N h m p)
  then show ?case by simp
next
  case (2 n N h m f)
  then show ?case by simp
next
  case (3 N h m a)
  then show ?case by (auto split: option.splits)
next
  case (4 n N h m a)
  show ?case
  proof (cases "m a")
    case (Some b)
    with "4.prems" show ?thesis by auto
  next
    case None
    with "4.prems" have a: "a < N" by (simp split: if_splits)
    obtain sh vs where c: "h ! a = Cell sh vs" by (cases "h ! a")
    from "4.prems" None a c obtain h1 vs1 where
      r: "clone_list n N (h @ [Cell sh []]) (m(a \<mapsto> length h)) vs = Some (h1, m', vs1)"
      and h': "h' = h1[length h := Cell sh vs1]"
      by (auto split: option.splits)
    from "4.IH" [OF None a c r tidy_descend [OF "4.prems"(2)]] show ?thesis
      unfolding h' by (rule tidy_update)
  qed
next
  case (5 n N h m)
  then show ?case by simp
next
  case (6 n N h m v vs)
  from "6.prems"(1) obtain h1 m1 v1 vs1 where
    c1: "clone n N h m v = Some (h1, m1, v1)"
    and c2: "clone_list n N h1 m1 vs = Some (h', m', vs1)"
    by (auto split: option.splits)
  from "6.IH"(2) [OF c1 refl refl c2 "6.IH"(1) [OF c1 "6.prems"(2)]] show ?case .
qed

lemma clone_succeeds:
  assumes fin: "finite S"
  shows "S \<subseteq> {..<N} \<Longrightarrow> N \<le> length h \<Longrightarrow> closedIn S h \<Longrightarrow> good S v \<Longrightarrow> card (S - dom m) \<le> n
           \<Longrightarrow> clone n N h m v \<noteq> None"
    and "S \<subseteq> {..<N} \<Longrightarrow> N \<le> length h \<Longrightarrow> closedIn S h \<Longrightarrow> \<forall>u \<in> set vs. good S u \<Longrightarrow> card (S - dom m) \<le> n
           \<Longrightarrow> clone_list n N h m vs \<noteq> None"
proof (induction n N h m v and n N h m vs rule: clone_clone_list.induct)
  case (1 n N h m p)
  then show ?case by simp
next
  case (2 n N h m f)
  then show ?case by simp
next
  case (3 N h m a)
  from "3.prems"(5) fin have "S - dom m = {}" by simp
  with "3.prems"(4) have "a \<in> dom m" by auto
  then show ?case by auto
next
  case (4 n N h m a)
  show ?case
  proof (cases "m a")
    case (Some b)
    then show ?thesis by simp
  next
    case None
    note S2 = "4.prems"(1)
    from "4.prems"(4) have aS: "a \<in> S" by simp
    with S2 have a: "a < N" by auto
    obtain sh vs where c: "h ! a = Cell sh vs" by (cases "h ! a")
    have N': "N \<le> length (h @ [Cell sh []])" using "4.prems"(2) by simp
    have cl: "closedIn S (h @ [Cell sh []])"
      unfolding closedIn_def
    proof (intro ballI allI impI)
      fix x sh' vs' u
      assume x: "x \<in> S" and "(h @ [Cell sh []]) ! x = Cell sh' vs'" and u: "u \<in> set vs'"
      moreover from x S2 "4.prems"(2) have "x < length h" by auto
      ultimately have "h ! x = Cell sh' vs'" by (simp add: nth_append)
      with "4.prems"(3) x u show "good S u" unfolding closedIn_def by blast
    qed
    from "4.prems"(3) aS c have gd: "\<forall>u \<in> set vs. good S u" unfolding closedIn_def by blast
    have "S - dom (m(a \<mapsto> length h)) = (S - dom m) - {a}" by auto
    moreover from aS None have "a \<in> S - dom m" by auto
    ultimately have "card (S - dom (m(a \<mapsto> length h))) = card (S - dom m) - 1"
      using fin by (simp add: card_Diff_singleton)
    with "4.prems"(5) have cd: "card (S - dom (m(a \<mapsto> length h))) \<le> n" by simp
    from "4.IH" [OF None a c S2 N' cl gd cd] obtain h1 m1 vs1 where
      r: "clone_list n N (h @ [Cell sh []]) (m(a \<mapsto> length h)) vs = Some (h1, m1, vs1)"
      by (metis not_None_eq prod_cases3)
    have "clone (Suc n) N h m (Ref a) = Some (h1[length h := Cell sh vs1], m1, Ref (length h))"
      using None a c r by simp
    then show ?thesis by simp
  qed
next
  case (5 n N h m)
  then show ?case by simp
next
  case (6 n N h m v vs)
  note S2 = "6.prems"(1)
  from "6.prems"(4) have gv: "good S v" and gvs: "\<forall>u \<in> set vs. good S u" by simp_all
  from "6.IH"(1) [OF "6.prems"(1,2,3) gv "6.prems"(5)] obtain h1 m1 v1 where
    c1: "clone n N h m v = Some (h1, m1, v1)" by (metis not_None_eq prod_cases3)
  from clone_grows(1) [OF c1] have g: "grows N h m h1 m1" .
  then have N1: "N \<le> length h1" using "6.prems"(2) by (simp add: grows_def)
  have cl: "closedIn S h1"
    unfolding closedIn_def
  proof (intro ballI allI impI)
    fix x sh' vs' u
    assume x: "x \<in> S" and c: "h1 ! x = Cell sh' vs'" and u: "u \<in> set vs'"
    from x S2 "6.prems"(2) have "x < length h" by auto
    with g have "h1 ! x = h ! x" by (simp add: grows_def)
    with c "6.prems"(3) x u show "good S u" unfolding closedIn_def by auto
  qed
  from g have "m \<subseteq>\<^sub>m m1" by (simp add: grows_def)
  then have "dom m \<subseteq> dom m1" by (rule map_le_implies_dom_le)
  then have "S - dom m1 \<subseteq> S - dom m" by auto
  with fin have "card (S - dom m1) \<le> card (S - dom m)" by (intro card_mono) auto
  with "6.prems"(5) have cd: "card (S - dom m1) \<le> n" by simp
  from "6.IH"(2) [OF c1 refl refl S2 N1 cl gvs cd] obtain h2 m2 vs2 where
    c2: "clone_list n N h1 m1 vs = Some (h2, m2, vs2)"
    by (metis not_None_eq prod_cases3)
  from c1 c2 show ?case by simp
qed

subsection \<open>Copies\<close>

lemma rn_rename: "rn m' u = rename (\<lambda>a. the (m' a)) u"
  by (cases u) simp_all

lemma objects_children:
  "a \<in> objects h v \<Longrightarrow> a < length h \<Longrightarrow> h ! a = Cell sh vs \<Longrightarrow> Ref b \<in> set vs
     \<Longrightarrow> b \<in> objects h v"
  by (rule objects.step)

lemma unfold_rename:
  assumes cells: "\<forall>a \<in> S. a < length h \<and> m a < length h' \<and> h' ! m a = renameCell m (h ! a)"
    and closed: "\<forall>a \<in> S. \<forall>sh vs. h ! a = Cell sh vs \<longrightarrow> (\<forall>b. Ref b \<in> set vs \<longrightarrow> b \<in> S)"
  shows "(\<forall>a. u = Ref a \<longrightarrow> a \<in> S) \<Longrightarrow> unfold n h' (rename m u) = unfold n h u"
proof (induction n arbitrary: u)
  case 0
  then show ?case by (cases u) simp_all
next
  case (Suc n)
  show ?case
  proof (cases u)
    case (Prim p)
    then show ?thesis by simp
  next
    case (Fun f)
    then show ?thesis by simp
  next
    case (Ref a)
    with Suc.prems have aS: "a \<in> S" by simp
    obtain sh vs where c: "h ! a = Cell sh vs" by (cases "h ! a")
    from cells aS c have 1: "a < length h" and 2: "m a < length h'"
      and 3: "h' ! m a = Cell sh (map (rename m) vs)" by auto
    have "unfold n h' (rename m w) = unfold n h w" if "w \<in> set vs" for w
    proof (rule Suc.IH, intro allI impI)
      fix b assume "w = Ref b"
      with that closed aS c show "b \<in> S" by blast
    qed
    then have "map (unfold n h') (map (rename m) vs) = map (unfold n h) vs"
      by simp
    with Ref 1 2 3 c show ?thesis by simp
  qed
qed

lemma copyOf_unfold:
  assumes "copyOf m h v h' v'"
  shows "unfold n h' v' = unfold n h v"
proof -
  have "unfold n h' (rename m v) = unfold n h v"
  proof (rule unfold_rename [where S = "objects h v"])
    show "\<forall>a \<in> objects h v. a < length h \<and> m a < length h' \<and> h' ! m a = renameCell m (h ! a)"
      using assms by (simp add: copyOf_def)
    show "\<forall>a \<in> objects h v. \<forall>sh vs. h ! a = Cell sh vs \<longrightarrow> (\<forall>b. Ref b \<in> set vs \<longrightarrow> b \<in> objects h v)"
      using assms by (auto simp: copyOf_def intro: objects.step)
    show "\<forall>a. v = Ref a \<longrightarrow> a \<in> objects h v"
      by (auto intro: objects.root)
  qed
  with assms show ?thesis by (simp add: copyOf_def)
qed

lemma copyOf_objects:
  assumes "copyOf m h v h' v'"
  shows "objects h' v' = m ` objects h v"
proof (intro equalityI subsetI)
  fix x assume "x \<in> objects h' v'"
  then show "x \<in> m ` objects h v"
  proof (induction rule: objects.induct)
    case (root a)
    with assms have rv: "rename m v = Ref a" by (simp add: copyOf_def)
    from rv obtain a0 where v0: "v = Ref a0" and a0: "a = m a0" by (cases v) auto
    from v0 have "a0 \<in> objects h v" by (rule objects.root)
    with a0 show ?case by blast
  next
    case (step b sh vs a)
    from step.IH obtain b0 where b0: "b0 \<in> objects h v" and b: "b = m b0" by blast
    obtain sh0 vs0 where c0: "h ! b0 = Cell sh0 vs0" by (cases "h ! b0")
    from assms b0 b c0 have l: "b0 < length h" and "h' ! b = Cell sh0 (map (rename m) vs0)"
      by (auto simp: copyOf_def)
    with step.hyps have "vs = map (rename m) vs0" by simp
    with step.hyps have "Ref a \<in> rename m ` set vs0" by simp
    then obtain u where u: "u \<in> set vs0" and ru: "rename m u = Ref a" by auto
    from ru obtain a0 where u0: "u = Ref a0" and a0: "a = m a0" by (cases u) auto
    from b0 l c0 u [unfolded u0] have "a0 \<in> objects h v" by (rule objects.step)
    with a0 show ?case by blast
  qed
next
  fix x assume "x \<in> m ` objects h v"
  then obtain a where a: "a \<in> objects h v" and x: "x = m a" by blast
  from a have "m a \<in> objects h' v'"
  proof (induction rule: objects.induct)
    case (root a)
    with assms show ?case by (auto simp: copyOf_def intro: objects.root)
  next
    case (step b sh vs a)
    from assms step.hyps(1,3) have l: "m b < length h'"
      and c: "h' ! m b = Cell sh (map (rename m) vs)"
      by (auto simp: copyOf_def)
    from step.hyps(4) have "Ref (m a) \<in> set (map (rename m) vs)" by force
    with step.IH l c show ?case by (rule objects.step)
  qed
  with x show "x \<in> objects h' v'" by simp
qed

lemma copyOf_copyable:
  assumes i: "copyOf m h v h' v'" and c: "copyable h v"
  shows "copyable h' v'"
  unfolding copyable_def
proof (intro conjI allI ballI impI)
  fix f
  from i c show "v' \<noteq> Fun f" by (cases v) (auto simp: copyOf_def copyable_def)
next
  fix a' assume "a' \<in> objects h' v'"
  with copyOf_objects [OF i] obtain a where a: "a \<in> objects h v" and a': "a' = m a" by blast
  with i show "a' < length h'" by (simp add: copyOf_def)
  fix sh vs f assume cell: "h' ! a' = Cell sh vs"
  obtain sh0 vs0 where c0: "h ! a = Cell sh0 vs0" by (cases "h ! a")
  with i a a' cell have vs: "vs = map (rename m) vs0" by (auto simp: copyOf_def)
  from c a c0 have nf: "\<forall>g. Fun g \<notin> set vs0" by (auto simp: copyable_def)
  show "Fun f \<notin> set vs"
  proof
    assume "Fun f \<in> set vs"
    with vs obtain u where u: "u \<in> set vs0" and ru: "rename m u = Fun f" by auto
    from ru have "u = Fun f" by (cases u) simp_all
    with u nf show False by blast
  qed
qed

lemma copyOf_cong:
  assumes i: "copyOf m h v h1 v1"
    and same: "\<forall>b \<in> m ` objects h v. b < length h2 \<and> h2 ! b = h1 ! b"
  shows "copyOf m h v h2 v1"
  using assms unfolding copyOf_def by auto

lemma rename_comp: "rename m2 (rename m1 u) = rename (m2 \<circ> m1) u"
  by (cases u) simp_all

lemma copyOf_trans:
  assumes i1: "copyOf m1 h v h1 v1" and i2: "copyOf m2 h1 v1 h2 v2"
  shows "copyOf (m2 \<circ> m1) h v h2 v2"
proof -
  note ob = copyOf_objects [OF i1]
  have 1: "v2 = rename (m2 \<circ> m1) v"
    using i1 i2 by (simp add: copyOf_def rename_comp)
  have 2: "inj_on (m2 \<circ> m1) (objects h v)"
    using i1 i2 ob by (auto simp: copyOf_def intro: comp_inj_on)
  have 3: "a < length h \<and> (m2 \<circ> m1) a < length h2 \<and> h2 ! (m2 \<circ> m1) a = renameCell (m2 \<circ> m1) (h ! a)"
    if a: "a \<in> objects h v" for a
  proof -
    from a ob have a1: "m1 a \<in> objects h1 v1" by blast
    obtain sh vs where c: "h ! a = Cell sh vs" by (cases "h ! a")
    from i1 a c have "a < length h" and "h1 ! m1 a = Cell sh (map (rename m1) vs)"
      by (auto simp: copyOf_def)
    moreover from i2 a1 have "m2 (m1 a) < length h2"
      and "h2 ! m2 (m1 a) = renameCell m2 (h1 ! m1 a)"
      by (auto simp: copyOf_def)
    ultimately show ?thesis using c by (simp add: rename_comp)
  qed
  from 1 2 3 show ?thesis unfolding copyOf_def by blast
qed

lemma rename_id: "rename (\<lambda>a. a) u = u"
  by (cases u) simp_all

lemma renameCell_id: "renameCell (\<lambda>a. a) c = c"
  by (cases c) (auto simp: rename_id intro: map_idI)

lemma copyOf_prefix:
  assumes c: "\<forall>a \<in> objects h v. a < length h"
    and p: "length h \<le> length h'" "\<forall>x < length h. h' ! x = h ! x"
  shows "copyOf (\<lambda>a. a) h v h' v"
  unfolding copyOf_def using assms by (auto simp: rename_id renameCell_id)

subsection \<open>structuredClone\<close>

lemma tidy_empty: "tidy h Map.empty"
  by (simp add: tidy_def)

lemma structuredClone_Some:
  assumes "structuredClone h v = Inr (h', v')"
  obtains m' where "clone (length h) (length h) h Map.empty v = Some (h', m', v')"
  using assms by (auto simp: structuredClone_def split: option.splits)

lemma structuredClone_prefix:
  assumes "structuredClone h v = Inr (h', v')"
  shows "length h \<le> length h' \<and> (\<forall>x < length h. h' ! x = h ! x)"
proof -
  from assms obtain m' where c: "clone (length h) (length h) h Map.empty v = Some (h', m', v')"
    by (rule structuredClone_Some)
  from clone_grows(1) [OF c] show ?thesis by (simp add: grows_def)
qed

lemma structuredClone_copyOf:
  assumes "structuredClone h v = Inr (h', v')"
  shows "\<exists>m. copyOf m h v h' v' \<and> m ` objects h v \<subseteq> {length h ..< length h'}"
    and "copyable h v"
proof -
  from assms obtain m' where c: "clone (length h) (length h) h Map.empty v = Some (h', m', v')"
    by (rule structuredClone_Some)
  note g = clone_grows(1) [OF c]
  note cp = clone_copied(1) [OF c order_refl]
  note td = clone_tidy(1) [OF c tidy_empty]
  have new: "a < length h \<and> length h \<le> b \<and> b < length h'" if "m' a = Some b" for a b
    using g that unfolding grows_def by simp
  have cell: "\<exists>sh vs. h ! a = Cell sh vs \<and> h' ! b = Cell sh (map (rn m') vs) \<and>
      (\<forall>u \<in> set vs. okval m' u)" if "m' a = Some b" for a b
    using cp that unfolding copied_def by simp
  have dom: "m' a \<noteq> None" if "a \<in> objects h v" for a
    using that
  proof (induction rule: objects.induct)
    case (root a)
    with cp show ?case by auto
  next
    case (step b sh vs a)
    from step.IH obtain b' where b': "m' b = Some b'" by blast
    from cell [OF b'] step.hyps(3,4) have "okval m' (Ref a)" by auto
    then show ?case by simp
  qed
  define m where "m = (\<lambda>a. the (m' a))"
  have rnm: "rn m' u = rename m u" for u
    unfolding m_def by (rule rn_rename)
  have 1: "v' = rename m v" using cp rnm by simp
  have 2: "inj_on m (objects h v)"
  proof (rule inj_onI)
    fix x y assume x: "x \<in> objects h v" and y: "y \<in> objects h v" and e: "m x = m y"
    from dom [OF x] obtain bx where bx: "m' x = Some bx" by blast
    from dom [OF y] obtain by' where by': "m' y = Some by'" by blast
    from e bx by' have "bx = by'" by (simp add: m_def)
    with td bx by' show "x = y" unfolding tidy_def by blast
  qed
  have 3: "a < length h \<and> m a < length h' \<and> h' ! m a = renameCell m (h ! a) \<and> length h \<le> m a"
    if a: "a \<in> objects h v" for a
  proof -
    from dom [OF a] obtain b where b: "m' a = Some b" by blast
    then have mb: "m a = b" by (simp add: m_def)
    from cell [OF b] obtain sh vs where "h ! a = Cell sh vs"
      and "h' ! b = Cell sh (map (rn m') vs)" by blast
    moreover have "map (rn m') vs = map (rename m) vs" by (simp add: rnm)
    ultimately show ?thesis using new [OF b] mb by simp
  qed
  from 1 2 3 have "copyOf m h v h' v'" unfolding copyOf_def by blast
  moreover from 3 have "m ` objects h v \<subseteq> {length h ..< length h'}" by auto
  ultimately show "\<exists>m. copyOf m h v h' v' \<and> m ` objects h v \<subseteq> {length h ..< length h'}"
    by blast
  show "copyable h v"
    unfolding copyable_def
  proof (intro conjI allI ballI impI)
    fix f
    from cp show "v \<noteq> Fun f" by auto
  next
    fix a assume a: "a \<in> objects h v"
    from 3 [OF a] show "a < length h" by simp
    fix sh vs f assume c: "h ! a = Cell sh vs"
    from dom [OF a] obtain b where b: "m' a = Some b" by blast
    from cell [OF b] c have "\<forall>u \<in> set vs. okval m' u" by auto
    then show "Fun f \<notin> set vs" by auto
  qed
qed

lemma copyable_structuredClone:
  assumes "copyable h v"
  shows "\<exists>h' v'. structuredClone h v = Inr (h', v')"
proof -
  let ?S = "objects h v"
  from assms have sub: "?S \<subseteq> {..< length h}" by (auto simp: copyable_def)
  then have fin: "finite ?S" by (rule finite_subset) simp
  have cl: "closedIn ?S h"
    unfolding closedIn_def
  proof (intro ballI allI impI)
    fix a sh vs u assume a: "a \<in> ?S" and c: "h ! a = Cell sh vs" and u: "u \<in> set vs"
    from assms a have l: "a < length h" by (simp add: copyable_def)
    show "good ?S u"
    proof (cases u)
      case (Prim p)
      then show ?thesis by simp
    next
      case (Fun f)
      with assms a c u show ?thesis by (auto simp: copyable_def)
    next
      case (Ref b)
      with a l c u have "b \<in> ?S" by (auto intro: objects.step)
      with Ref show ?thesis by simp
    qed
  qed
  have gv: "good ?S v"
    using assms by (cases v) (auto simp: copyable_def intro: objects.root)
  from sub fin have "card ?S \<le> card {..< length h}" by (intro card_mono) auto
  then have cd: "card (?S - dom (Map.empty :: memory)) \<le> length h" by simp
  from clone_succeeds(1) [OF fin sub order_refl cl gv cd]
  show ?thesis by (auto simp: structuredClone_def split: option.splits)
qed

lemma objects_Prim: "objects h (Prim p) = {}"
proof -
  have "False" if "a \<in> objects h (Prim p)" for a
    using that by (induction rule: objects.induct) simp_all
  then show ?thesis by blast
qed

lemma copyable_Prim: "copyable h (Prim p)"
  by (simp add: copyable_def objects_Prim)

lemma copyable_Ref_bound: "copyable h (Ref b) \<Longrightarrow> b < length h"
  by (auto simp: copyable_def intro: objects.root)

lemma structuredClone_grows:
  assumes "structuredClone h v = Inr (h', v')"
  shows "\<exists>cs. h' = h @ cs"
proof -
  from structuredClone_prefix [OF assms] have l: "length h \<le> length h'"
    and s: "\<forall>x < length h. h' ! x = h ! x" by simp_all
  have "take (length h) h' = h"
    by (rule nth_equalityI) (use l s in simp_all)
  then have "h' = h @ drop (length h) h'"
    by (metis append_take_drop_id)
  then show ?thesis ..
qed

lemma structuredClone_result:
  assumes "structuredClone h v = Inr (h', v')"
  shows "copyable h' v'"
proof -
  from structuredClone_copyOf(1) [OF assms] obtain m where "copyOf m h v h' v'" by blast
  then show ?thesis using structuredClone_copyOf(2) [OF assms] by (rule copyOf_copyable)
qed

lemma structuredClone_unfold:
  assumes "structuredClone h v = Inr (h', v')"
  shows "unfold n h' v' = unfold n h v"
proof -
  from structuredClone_copyOf(1) [OF assms] obtain m where "copyOf m h v h' v'" by blast
  then show ?thesis by (rule copyOf_unfold)
qed

lemma copyable_append:
  assumes "copyable h v"
  shows "copyable (h @ cs) v"
proof -
  from assms have "\<forall>a \<in> objects h v. a < length h" by (simp add: copyable_def)
  then have "copyOf (\<lambda>a. a) h v (h @ cs) v"
    by (rule copyOf_prefix) (simp_all add: nth_append)
  then show ?thesis using assms by (rule copyOf_copyable)
qed

lemma intact_refl: "intact lo (length h) h h"
  by (simp add: intact_def)

section \<open>Lemmas: what the adapter stores can always be cloned\<close>

lemma Map_get_cases: "Map_get m k = Prim Undefined \<or> Map_get m k \<in> snd ` set m"
  by (induction m k rule: Map_get.induct) auto

lemma Map_set_subset: "set (Map_set m k v) \<subseteq> insert (k, v) (set m)"
  by (induction m k v rule: Map_set.induct) auto

lemma Map_get_set: "Map_get (Map_set m k v) k = v"
  by (induction m k v rule: Map_set.induct) auto

lemma cloneable_grow:
  assumes "cloneable w" "storage w' = storage w" "heap w' = heap w @ cs"
  shows "cloneable w'"
proof -
  have "copyable (heap w @ cs) v" if "v \<in> snd ` set (storage w)" for v
  proof -
    from assms(1) that have "copyable (heap w) v"
      unfolding cloneable_def by blast
    then show ?thesis by (rule copyable_append)
  qed
  with assms(2,3) show ?thesis unfolding cloneable_def by simp
qed

lemma cloneable_shrink:
  assumes "cloneable w" "set (storage w') \<subseteq> set (storage w)" "heap w' = heap w"
  shows "cloneable w'"
proof -
  have "copyable (heap w) v" if "v \<in> snd ` set (storage w')" for v
  proof -
    from that assms(2) have "v \<in> snd ` set (storage w)" by blast
    with assms(1) show ?thesis unfolding cloneable_def by blast
  qed
  with assms(3) show ?thesis unfolding cloneable_def by simp
qed

lemma cloneable_stores:
  assumes c: "cloneable w" and s: "structuredClone (heap w) v = Inr (h', v')"
  shows "cloneable (w\<lparr>heap := h', storage := Map_set (storage w) k v'\<rparr>)"
proof -
  from structuredClone_grows [OF s] obtain cs where h': "h' = heap w @ cs" by blast
  have old: "copyable h' u" if "u \<in> snd ` set (storage w)" for u
  proof -
    from c that have "copyable (heap w) u"
      unfolding cloneable_def by blast
    then show ?thesis unfolding h' by (rule copyable_append)
  qed
  have new: "u = v' \<or> u \<in> snd ` set (storage w)"
    if "u \<in> snd ` set (Map_set (storage w) k v')" for u
    using that Map_set_subset [of "storage w" k v'] by auto
  have "copyable h' u" if "u \<in> snd ` set (Map_set (storage w) k v')" for u
    using new [OF that] old structuredClone_result [OF s] by blast
  then show ?thesis
    unfolding cloneable_def by simp
qed

lemma cloneable_get:
  assumes "cloneable w"
  shows "\<exists>h' v'. structuredClone (heap w) (Map_get (storage w) k) = Inr (h', v')"
proof -
  from Map_get_cases [of "storage w" k] assms
  have "copyable (heap w) (Map_get (storage w) k)"
    unfolding cloneable_def by (auto simp: copyable_Prim)
  then show ?thesis by (rule copyable_structuredClone)
qed

lemma runAction_cloneable:
  assumes "cloneable w" "runAction a w = Inr w'"
  shows "cloneable w'"
proof (cases a)
  case (SetAction k v)
  with assms(2) obtain h' v' where s: "structuredClone (heap w) v = Inr (h', v')"
    and w': "w' = w\<lparr>heap := h', storage := Map_set (storage w) k v'\<rparr>"
    by (auto split: sum.splits)
  from cloneable_stores [OF assms(1) s] show ?thesis unfolding w' .
next
  case (InitAction n)
  with assms(2) show ?thesis by (intro cloneable_shrink [OF assms(1)]) auto
next
  case (DeleteAction k)
  with assms(2) show ?thesis
    by (intro cloneable_shrink [OF assms(1)]) (auto simp: Map_delete_def)
next
  case ClearAction
  with assms(2) show ?thesis
    by (intro cloneable_shrink [OF assms(1)]) (auto simp: Map_clear_def)
next
  case DeleteStorageAction
  with assms(2) show ?thesis
    by (intro cloneable_shrink [OF assms(1)]) (auto simp: Map_clear_def)
qed

lemma wait_cloneable: "cloneable w \<Longrightarrow> cloneable (final (wait d w))"
  by (auto simp: wait_def Let_def split: sum.splits option.splits dest: runAction_cloneable)

lemma getItemSync_cloneable:
  assumes "cloneable w" "getItemSync k w = Inr (v, w')"
  shows "cloneable w'"
proof -
  from assms(2) obtain h' where s: "structuredClone (heap w) (Map_get (storage w) k) = Inr (h', v)"
    and w': "w' = w\<lparr>heap := h'\<rparr>"
    by (auto simp: getItemSync_def split: sum.splits)
  from structuredClone_grows [OF s] obtain cs where cs: "h' = heap w @ cs" by blast
  have "cloneable (w\<lparr>heap := h'\<rparr>)"
    by (rule cloneable_grow [OF assms(1), of _ cs]) (simp_all add: cs)
  then show ?thesis unfolding w' .
qed

lemma setItemSync_cloneable:
  assumes "cloneable w" "setItemSync k v w = Inr w'"
  shows "cloneable w'"
proof -
  from assms(2) obtain h' v' where s: "structuredClone (heap w) v = Inr (h', v')"
    and w': "w' = w\<lparr>heap := h', storage := Map_set (storage w) k v'\<rparr>"
    by (auto simp: setItemSync_def split: sum.splits)
  from cloneable_stores [OF assms(1) s] show ?thesis unfolding w' .
qed

lemma callSync_cloneable:
  assumes "cloneable w"
  shows "cloneable (snd (callSync c w))"
proof (cases c)
  case (GetItem k)
  with assms show ?thesis
    by (auto simp: callSync_def split: sum.splits dest: getItemSync_cloneable)
next
  case (SetItem k v)
  with assms show ?thesis
    by (auto simp: callSync_def split: sum.splits dest: setItemSync_cloneable)
next
  case (Init n)
  then show ?thesis
    by (intro cloneable_shrink [OF assms]) (auto simp: callSync_def sync_defs)
next
  case (RemoveItem k)
  then show ?thesis
    by (intro cloneable_shrink [OF assms]) (auto simp: callSync_def sync_defs Map_delete_def)
next
  case Clear
  then show ?thesis
    by (intro cloneable_shrink [OF assms]) (auto simp: callSync_def sync_defs Map_clear_def)
next
  case Size
  with assms show ?thesis by (auto simp: callSync_def sync_defs)
next
  case (KeyAt i)
  with assms show ?thesis by (auto simp: callSync_def sync_defs)
next
  case DeleteStorage
  then show ?thesis
    by (intro cloneable_shrink [OF assms]) (auto simp: callSync_def sync_defs Map_clear_def)
qed

lemma callAsync_cloneable:
  assumes "cloneable w" "callAsync c w = Inr (d, w')"
  shows "cloneable w'"
proof (cases c)
  case (GetItem k)
  with assms(2) obtain h' v where s: "structuredClone (heap w) (Map_get (storage w) k) = Inr (h', v)"
    and w': "w' = w\<lparr>heap := h'\<rparr>"
    by (auto simp: callAsync_def getItemAsync_def split: sum.splits)
  from structuredClone_grows [OF s] obtain cs where cs: "h' = heap w @ cs" by blast
  have "cloneable (w\<lparr>heap := h'\<rparr>)"
    by (rule cloneable_grow [OF assms(1), of _ cs]) (simp_all add: cs)
  then show ?thesis unfolding w' .
qed (use assms in \<open>auto simp: callAsync_def async_defs\<close>)

lemma react_cloneable:
  assumes "cloneable (adapter s)"
  shows "cloneable (adapter (snd (react ev s)))"
proof (cases ev)
  case (CallSync c)
  with callSync_cloneable [OF assms, of c] show ?thesis
    by (auto simp: react_def split: prod.splits)
next
  case (CallAsync c)
  with assms show ?thesis
    by (auto simp: react_def split: sum.splits dest: callAsync_cloneable)
next
  case (TimerFires i)
  with assms show ?thesis
    by (auto simp: react_def Let_def split: prod.splits intro: wait_cloneable)
qed

lemma react_failsDeleted:
  assumes "cloneable (adapter s)" "isDeleted (adapter s)"
  shows "failsDeleted (fst (react ev s))"
proof (cases ev)
  case (CallSync c)
  with assms(2) show ?thesis
    by (cases c) (auto simp: react_def callSync_def sync_defs)
next
  case (CallAsync c)
  show ?thesis
  proof (cases c)
    case (GetItem k)
    with cloneable_get [OF assms(1), of k] CallAsync show ?thesis
      by (auto simp: react_def callAsync_def getItemAsync_def)
  qed (use CallAsync in \<open>auto simp: react_def callAsync_def async_defs\<close>)
next
  case (TimerFires i)
  with assms(2) show ?thesis
    by (auto simp: react_def Let_def wait_deleted_settled split: prod.splits)
qed

lemma run_deleted:
  "cloneable (adapter s) \<Longrightarrow> isDeleted (adapter s) \<Longrightarrow>
   list_all failsDeleted (fst (run evs s)) \<and> isDeleted (adapter (snd (run evs s)))"
proof (induction evs arbitrary: s)
  case Nil
  then show ?case by simp
next
  case (Cons ev evs)
  have c: "cloneable (adapter (snd (react ev s)))" using Cons.prems(1) by (rule react_cloneable)
  have d: "isDeleted (adapter (snd (react ev s)))" using Cons.prems(2) by (rule react_keeps_latch)
  have f: "failsDeleted (fst (react ev s))" using Cons.prems by (rule react_failsDeleted)
  from Cons.IH [OF c d] f show ?case by (auto split: prod.splits)
qed

lemma run_cloneable: "cloneable (adapter s) \<Longrightarrow> cloneable (adapter (snd (run evs s)))"
proof (induction evs arbitrary: s)
  case Nil
  then show ?case by simp
next
  case (Cons ev evs)
  have c: "cloneable (adapter (snd (react ev s)))" using Cons.prems(1) by (rule react_cloneable)
  from Cons.IH [OF c] show ?case by (auto split: prod.splits)
qed

lemma cloneable_initial: "cloneable (adapter (initial h))"
  by (simp add: cloneable_def initial_def newMockInterface_def)

section \<open>Lemmas: the map and the synchronous methods\<close>

lemma intact_append: "intact lo hi h h'' \<Longrightarrow> intact lo hi h (h'' @ cs)"
  by (auto simp: intact_def nth_append)

lemma intact_update:
  "intact lo hi h h'' \<Longrightarrow> a < lo \<or> hi \<le> a \<Longrightarrow> intact lo hi h (h''[a := c])"
  by (auto simp: intact_def)

lemma Map_keys_set:
  "Map_keys (Map_set m k v) = (if k \<in> set (Map_keys m) then Map_keys m else Map_keys m @ [k])"
  by (induction m k v rule: Map_set.induct) (auto simp: Map_keys_def)

lemma Map_keys_delete: "Map_keys (Map_delete m k) = filter (\<lambda>x. x \<noteq> k) (Map_keys m)"
  by (induction m) (auto simp: Map_keys_def Map_delete_def)

lemma setItemSync_live:
  assumes "\<not> isDeleted w" "copyable (heap w) v"
  shows "\<exists>w' cs. setItemSync k v w = Inr w' \<and> \<not> isDeleted w' \<and> heap w' = heap w @ cs \<and>
     Map_keys (storage w') =
       (if k \<in> set (Map_keys (storage w)) then Map_keys (storage w) else Map_keys (storage w) @ [k])"
proof -
  from copyable_structuredClone [OF assms(2)] obtain h1 v1 where
    s: "structuredClone (heap w) v = Inr (h1, v1)" by blast
  from structuredClone_grows [OF s] obtain cs where h1: "h1 = heap w @ cs" by blast
  have "setItemSync k v w = Inr (w\<lparr>heap := h1, storage := Map_set (storage w) k v1\<rparr>)"
    using assms(1) s by (simp add: setItemSync_def checkStorage_def)
  with assms(1) h1 show ?thesis
    by (simp add: Map_keys_set)
qed

lemma setItems_fresh_keys:
  "\<not> isDeleted w \<Longrightarrow> \<forall>v \<in> snd ` set kvs. copyable (heap w) v \<Longrightarrow>
   distinct (map fst kvs) \<Longrightarrow> set (map fst kvs) \<inter> set (Map_keys (storage w)) = {} \<Longrightarrow>
   \<exists>w'. setItems kvs w = Inr w' \<and> \<not> isDeleted w' \<and>
     Map_keys (storage w') = Map_keys (storage w) @ map fst kvs"
proof (induction kvs arbitrary: w)
  case Nil
  then show ?case by simp
next
  case (Cons kv kvs)
  obtain k v where kv: "kv = (k, v)" by (cases kv)
  from Cons.prems(2) kv have t: "copyable (heap w) v" by auto
  from setItemSync_live [OF Cons.prems(1) t, of k] Cons.prems(4) kv
  obtain w1 cs where s: "setItemSync k v w = Inr w1" and l1: "\<not> isDeleted w1"
    and h1: "heap w1 = heap w @ cs" and k1: "Map_keys (storage w1) = Map_keys (storage w) @ [k]"
    by auto
  have c1: "\<forall>u \<in> snd ` set kvs. copyable (heap w1) u"
  proof
    fix u assume "u \<in> snd ` set kvs"
    with Cons.prems(2) have "copyable (heap w) u" by auto
    then show "copyable (heap w1) u" unfolding h1 by (rule copyable_append)
  qed
  have d1: "distinct (map fst kvs)" using Cons.prems(3) by simp
  have i1: "set (map fst kvs) \<inter> set (Map_keys (storage w1)) = {}"
    using Cons.prems(3,4) kv unfolding k1 by auto
  from Cons.IH [OF l1 c1 d1 i1] s kv k1 show ?case by auto
qed

lemma setItems_keys_set:
  "setItems kvs w = Inr w' \<Longrightarrow>
   set (Map_keys (storage w')) = set (Map_keys (storage w)) \<union> fst ` set kvs"
proof (induction kvs arbitrary: w)
  case Nil
  then show ?case by simp
next
  case (Cons kv kvs)
  obtain k v where kv: "kv = (k, v)" by (cases kv)
  from Cons.prems kv obtain w1 where s: "setItemSync k v w = Inr w1"
    and r: "setItems kvs w1 = Inr w'"
    by (auto split: sum.splits)
  from s have "Map_keys (storage w1) =
      (if k \<in> set (Map_keys (storage w)) then Map_keys (storage w) else Map_keys (storage w) @ [k])"
    by (auto simp: setItemSync_def Map_keys_set split: sum.splits)
  then have "set (Map_keys (storage w1)) = insert k (set (Map_keys (storage w)))"
    by (auto split: if_splits)
  with Cons.IH [OF r] kv show ?case by auto
qed

lemma keySync_live:
  "\<not> isDeleted w \<Longrightarrow> i < length (Map_keys (storage w)) \<Longrightarrow>
   keySync (int i) w = Inr (Some (Map_keys (storage w) ! i))"
  by (simp add: keySync_def checkStorage_def keyAt_def Map_keys_def)

lemma sizeSync_live:
  "\<not> isDeleted w \<Longrightarrow> sizeSync w = Inr (length (Map_keys (storage w)))"
  by (simp add: sizeSync_def checkStorage_def Map_size_def Map_keys_def)

lemma removeItemSync_live:
  "\<not> isDeleted w \<Longrightarrow>
   removeItemSync k w = Inr (w\<lparr>storage := Map_delete (storage w) k\<rparr>)"
  by (simp add: removeItemSync_def checkStorage_def)

lemma setItemSync_latch: "setItemSync k v w = Inr w' \<Longrightarrow> \<not> isDeleted w \<and> \<not> isDeleted w'"
  by (auto simp: setItemSync_def checkStorage_def split: sum.splits if_splits)

lemma setItems_latch: "setItems kvs w = Inr w' \<Longrightarrow> isDeleted w' = isDeleted w"
proof (induction kvs arbitrary: w)
  case Nil
  then show ?case by simp
next
  case (Cons kv kvs)
  obtain k v where kv: "kv = (k, v)" by (cases kv)
  from Cons.prems kv obtain w1 where s: "setItemSync k v w = Inr w1"
    and r: "setItems kvs w1 = Inr w'"
    by (auto split: sum.splits)
  from Cons.IH [OF r] setItemSync_latch [OF s] show ?case by simp
qed

lemma keySync_keys:
  "keySync i w =
     (if isDeleted w then Inl StorageDeleted
      else Inr (if 0 \<le> i \<and> i < int (length (Map_keys (storage w)))
                then Some (Map_keys (storage w) ! nat i) else None))"
  by (auto simp: keySync_def checkStorage_def keyAt_def Map_keys_def)

section \<open>Latch finality\<close>

text \<open>
  C1. Once the latch of an adapter is set (\<open>deleteStorage\<close> has run), whatever the client
  does next, in whatever number and order: every synchronous \<open>getItem\<close>, \<open>setItem\<close>,
  \<open>removeItem\<close>, \<open>clear\<close>, \<open>size\<close> and \<open>keyAt\<close> throws \<open>StorageDeleted\<close>, every such
  call in the asynchronous form is scheduled and its promise is rejected with
  \<open>StorageDeleted\<close> when its timer fires, and the latch stays set. The adapter is any
  one that a sequence of operations \<open>evs0\<close> on a new instance has led to.
\<close>

theorem latch_finality:
  assumes "run evs0 (initial h) = (obs0, s)" and "isDeleted (adapter s)"
    and "run evs s = (obs, s')"
  shows "list_all failsDeleted obs \<and> isDeleted (adapter s')"
proof -
  from run_cloneable [OF cloneable_initial, of evs0 h] assms(1)
  have "cloneable (adapter s)" by simp
  from run_deleted [OF this assms(2), of evs] assms(3) show ?thesis by simp
qed

theorem latch_finality_witness:
  "run [CallSync (SetItem ''value'' (Prim (Number 42))), CallAsync (GetItem ''value''),
        CallSync DeleteStorage] (initial []) =
     ([SyncOutcome (SetItem ''value'' (Prim (Number 42))) (Returned (Val (Prim Undefined))),
       Scheduled (GetItem ''value''),
       SyncOutcome DeleteStorage (Returned (Val (Prim Undefined)))],
      \<lparr>adapter = \<lparr>heap = [], storageName = [], isDeleted = True, storage = []\<rparr>,
       timers = [(GetItem ''value'', resolving (Val (Prim (Number 42))) None)]\<rparr>) \<and>
   run [CallSync (GetItem ''value''), CallSync (SetItem ''value'' (Prim (Number 1))),
        CallSync (RemoveItem ''value''), CallSync Clear, CallSync Size, CallSync (KeyAt 0),
        CallAsync (GetItem ''value''), CallAsync (SetItem ''value'' (Prim (Number 1))),
        TimerFires 0, TimerFires 0, TimerFires 0]
     \<lparr>adapter = \<lparr>heap = [], storageName = [], isDeleted = True, storage = []\<rparr>,
      timers = [(GetItem ''value'', resolving (Val (Prim (Number 42))) None)]\<rparr> =
     ([SyncOutcome (GetItem ''value'') (Threw StorageDeleted),
       SyncOutcome (SetItem ''value'' (Prim (Number 1))) (Threw StorageDeleted),
       SyncOutcome (RemoveItem ''value'') (Threw StorageDeleted),
       SyncOutcome Clear (Threw StorageDeleted),
       SyncOutcome Size (Threw StorageDeleted),
       SyncOutcome (KeyAt 0) (Threw StorageDeleted),
       Scheduled (GetItem ''value''),
       Scheduled (SetItem ''value'' (Prim (Number 1))),
       TimerOutcome (GetItem ''value'') (Rejected (Err StorageDeleted)) None,
       TimerOutcome (GetItem ''value'') (Rejected (Err StorageDeleted)) None,
       TimerOutcome (SetItem ''value'' (Prim (Number 1))) (Rejected (Err StorageDeleted)) None],
      \<lparr>adapter = \<lparr>heap = [], storageName = [], isDeleted = True,
                   storage = [(''value'', Prim (Number 1))]\<rparr>,
       timers = []\<rparr>) \<and>
   list_all failsDeleted
     [SyncOutcome (GetItem ''value'') (Threw StorageDeleted),
      SyncOutcome (SetItem ''value'' (Prim (Number 1))) (Threw StorageDeleted),
      SyncOutcome (RemoveItem ''value'') (Threw StorageDeleted),
      SyncOutcome Clear (Threw StorageDeleted),
      SyncOutcome Size (Threw StorageDeleted),
      SyncOutcome (KeyAt 0) (Threw StorageDeleted),
      Scheduled (GetItem ''value''),
      Scheduled (SetItem ''value'' (Prim (Number 1))),
      TimerOutcome (GetItem ''value'') (Rejected (Err StorageDeleted)) None,
      TimerOutcome (GetItem ''value'') (Rejected (Err StorageDeleted)) None,
      TimerOutcome (SetItem ''value'' (Prim (Number 1))) (Rejected (Err StorageDeleted)) None]"
proof -
  have a: "run [CallSync (SetItem ''value'' (Prim (Number 42))), CallAsync (GetItem ''value''),
        CallSync DeleteStorage] (initial []) =
     ([SyncOutcome (SetItem ''value'' (Prim (Number 42))) (Returned (Val (Prim Undefined))),
       Scheduled (GetItem ''value''),
       SyncOutcome DeleteStorage (Returned (Val (Prim Undefined)))],
      \<lparr>adapter = \<lparr>heap = [], storageName = [], isDeleted = True, storage = []\<rparr>,
       timers = [(GetItem ''value'', resolving (Val (Prim (Number 42))) None)]\<rparr>)"
    by (simp add: eval_defs)
  have b: "run [CallSync (GetItem ''value''), CallSync (SetItem ''value'' (Prim (Number 1))),
        CallSync (RemoveItem ''value''), CallSync Clear, CallSync Size, CallSync (KeyAt 0),
        CallAsync (GetItem ''value''), CallAsync (SetItem ''value'' (Prim (Number 1))),
        TimerFires 0, TimerFires 0, TimerFires 0]
     \<lparr>adapter = \<lparr>heap = [], storageName = [], isDeleted = True, storage = []\<rparr>,
      timers = [(GetItem ''value'', resolving (Val (Prim (Number 42))) None)]\<rparr> =
     ([SyncOutcome (GetItem ''value'') (Threw StorageDeleted),
       SyncOutcome (SetItem ''value'' (Prim (Number 1))) (Threw StorageDeleted),
       SyncOutcome (RemoveItem ''value'') (Threw StorageDeleted),
       SyncOutcome Clear (Threw StorageDeleted),
       SyncOutcome Size (Threw StorageDeleted),
       SyncOutcome (KeyAt 0) (Threw StorageDeleted),
       Scheduled (GetItem ''value''),
       Scheduled (SetItem ''value'' (Prim (Number 1))),
       TimerOutcome (GetItem ''value'') (Rejected (Err StorageDeleted)) None,
       TimerOutcome (GetItem ''value'') (Rejected (Err StorageDeleted)) None,
       TimerOutcome (SetItem ''value'' (Prim (Number 1))) (Rejected (Err StorageDeleted)) None],
      \<lparr>adapter = \<lparr>heap = [], storageName = [], isDeleted = True,
                   storage = [(''value'', Prim (Number 1))]\<rparr>,
       timers = []\<rparr>)"
    by (simp add: eval_defs)
  from latch_finality [OF a _ b] a b show ?thesis by simp
qed

section \<open>Deletion while a deferred operation is pending\<close>

text \<open>
  C2. A deferred operation \<open>c\<close> is started on a live adapter \<open>w\<close> and gives the descriptor
  \<open>d\<close>, which is configured to resolve. If the latch is set in the adapter \<open>w'\<close> that the timer
  finds when it fires (\<open>deleteStorage\<close> ran in between), the promise is rejected with
  \<open>StorageDeleted\<close> and not fulfilled with the payload \<open>d\<close> was configured for.
\<close>

theorem deletion_preempts_pending:
  "\<not> isDeleted w \<Longrightarrow> callAsync c w = Inr (d, w1) \<Longrightarrow> isDeleted w' \<Longrightarrow>
   settled (wait d w') = Rejected (Err StorageDeleted) \<and>
   (\<exists>x. resolve d = Some x \<and> settled (wait d w') \<noteq> Fulfilled x)"
  by (cases c) (auto simp: wait_deleted_settled callAsync_def async_defs split: sum.splits)

theorem deletion_preempts_pending_witness:
  "\<not> isDeleted (newMockInterface []) \<and>
   callAsync (GetItem ''value'') (newMockInterface []) =
     Inr (resolving (Val (Prim Undefined)) None, newMockInterface []) \<and>
   deleteStorageSync (newMockInterface []) = Inr ((newMockInterface [])\<lparr>isDeleted := True\<rparr>) \<and>
   settled (wait (resolving (Val (Prim Undefined)) None) ((newMockInterface [])\<lparr>isDeleted := True\<rparr>))
     = Rejected (Err StorageDeleted)"
  using deletion_preempts_pending [of "newMockInterface []" "GetItem ''value''"
      "resolving (Val (Prim Undefined)) None" "newMockInterface []"
      "(newMockInterface [])\<lparr>isDeleted := True\<rparr>"]
  by (simp add: eval_defs)

section \<open>Writes after deletion\<close>

text \<open>
  C3. After deletion the map is not to change any more, also not by a deferred operation
  whose timer fires after the deletion. The timer callback of \<open>wait\<close> rejects the promise on
  a deleted storage and then goes on to run the action: on a new adapter,
  \<open>deleteStorage()\<close> followed by a deferred \<open>setItem('a', 1)\<close> leaves the entry \<open>a\<close> in the
  map of the deleted adapter, while the promise is rejected with \<open>StorageDeleted\<close>.
\<close>

theorem write_after_deletion:
  "run [CallSync DeleteStorage, CallAsync (SetItem ''a'' (Prim (Number 1))), TimerFires 0]
     (initial []) =
   ([SyncOutcome DeleteStorage (Returned (Val (Prim Undefined))),
     Scheduled (SetItem ''a'' (Prim (Number 1))),
     TimerOutcome (SetItem ''a'' (Prim (Number 1))) (Rejected (Err StorageDeleted)) None],
    \<lparr>adapter = \<lparr>heap = [], storageName = [], isDeleted = True,
                 storage = [(''a'', Prim (Number 1))]\<rparr>,
     timers = []\<rparr>)"
  by (simp add: eval_defs)

section \<open>Deleting the storage\<close>

text \<open>
  C4. On a live adapter, \<open>deleteStorageSync\<close> succeeds, leaves the map empty (size 0) and
  sets the latch. \<open>deleteStorageAsync\<close> schedules a descriptor whose timer callback leaves
  the map empty and the latch set on whatever adapter it finds, and fulfils the promise
  when that adapter is still live. From a set latch on, no sequence of operations and
  timers unsets it.
\<close>

theorem deleteStorage_clears_and_latches:
  "\<not> isDeleted w \<Longrightarrow>
   (\<exists>w'. deleteStorageSync w = Inr w' \<and> storage w' = [] \<and> Map_size (storage w') = 0 \<and>
         isDeleted w') \<and>
   (\<exists>d. deleteStorageAsync w = Inr (d, w) \<and>
        (\<forall>w1. storage (final (wait d w1)) = [] \<and> isDeleted (final (wait d w1)) \<and>
              (\<not> isDeleted w1 \<longrightarrow> settled (wait d w1) = Fulfilled Ok))) \<and>
   (\<forall>s evs. isDeleted (adapter s) \<longrightarrow> isDeleted (adapter (snd (run evs s))))"
  by (auto simp: run_keeps_latch deleteStorageSync_def checkStorage_def Map_clear_def Map_size_def
      deleteStorageAsync_def resolving_def wait_def)

theorem deleteStorage_clears_and_latches_witness:
  "\<not> isDeleted \<lparr>heap = [], storageName = ''settings'', isDeleted = False,
                 storage = [(''value'', Prim (Number 42))]\<rparr> \<and>
   deleteStorageSync \<lparr>heap = [], storageName = ''settings'', isDeleted = False,
                      storage = [(''value'', Prim (Number 42))]\<rparr> =
     Inr \<lparr>heap = [], storageName = ''settings'', isDeleted = True, storage = []\<rparr> \<and>
   final (wait (resolving Ok (Some DeleteStorageAction))
      \<lparr>heap = [], storageName = ''settings'', isDeleted = False,
       storage = [(''value'', Prim (Number 42))]\<rparr>) =
     \<lparr>heap = [], storageName = ''settings'', isDeleted = True, storage = []\<rparr>"
  using deleteStorage_clears_and_latches [of "\<lparr>heap = [], storageName = ''settings'',
      isDeleted = False, storage = [(''value'', Prim (Number 42))]\<rparr>"]
  by (simp add: eval_defs)

section \<open>Deleting the storage twice\<close>

text \<open>
  C5, as the code has it. A second \<open>deleteStorage\<close> is guarded like every other
  operation: on an adapter whose latch is set, \<open>deleteStorageSync\<close> throws \<open>StorageDeleted\<close>
  (changing nothing), and the promise of \<open>deleteStorageAsync\<close> is rejected with
  \<open>StorageDeleted\<close> when its timer fires; the latch stays set.
\<close>

theorem second_deleteStorage_fails:
  "isDeleted w \<Longrightarrow>
   deleteStorageSync w = Inl StorageDeleted \<and>
   (\<exists>d. deleteStorageAsync w = Inr (d, w) \<and>
        (\<forall>w'. isDeleted w' \<longrightarrow>
           settled (wait d w') = Rejected (Err StorageDeleted) \<and> isDeleted (final (wait d w'))))"
  by (simp add: deleteStorageSync_def checkStorage_def deleteStorageAsync_def
      wait_deleted_settled wait_keeps_latch)

theorem second_deleteStorage_fails_witness:
  "isDeleted \<lparr>heap = [], storageName = [], isDeleted = True, storage = []\<rparr> \<and>
   deleteStorageSync \<lparr>heap = [], storageName = [], isDeleted = True, storage = []\<rparr> =
     Inl StorageDeleted \<and>
   settled (wait (resolving Ok (Some DeleteStorageAction))
      \<lparr>heap = [], storageName = [], isDeleted = True, storage = []\<rparr>) =
     Rejected (Err StorageDeleted)"
  using second_deleteStorage_fails [of "\<lparr>heap = [], storageName = [], isDeleted = True,
      storage = []\<rparr>"]
  by (simp add: eval_defs)

text \<open>
  C5 as stated (the second call raises no error) fails: on a new adapter the second
  synchronous \<open>deleteStorage\<close> throws, and a deferred one after it is rejected.
\<close>

theorem second_deleteStorage_counterexample:
  "fst (run [CallSync DeleteStorage, CallSync DeleteStorage, CallAsync DeleteStorage, TimerFires 0]
     (initial [])) =
   [SyncOutcome DeleteStorage (Returned (Val (Prim Undefined))),
    SyncOutcome DeleteStorage (Threw StorageDeleted),
    Scheduled DeleteStorage,
    TimerOutcome DeleteStorage (Rejected (Err StorageDeleted)) None]"
  by (simp add: eval_defs)

section \<open>Reading a key by index\<close>

text \<open>
  C6. On a live adapter, \<open>keySync\<close> at an index that is negative or not below the current
  size returns \<^verbatim>\<open>undefined\<close> (\<open>None\<close>) and raises nothing.
\<close>

theorem keySync_out_of_range:
  "\<not> isDeleted w \<Longrightarrow> index < 0 \<or> int (Map_size (storage w)) \<le> index \<Longrightarrow>
   keySync index w = Inr None"
  by (auto simp: keySync_def checkStorage_def keyAt_def Map_size_def)

theorem keySync_out_of_range_witness:
  "\<not> isDeleted (newMockInterface []) \<and>
   keySync 0 (newMockInterface []) = Inr None \<and>
   keySync (- 1) (newMockInterface []) = Inr None"
  using keySync_out_of_range [of "newMockInterface []" 0]
    keySync_out_of_range [of "newMockInterface []" "- 1"]
  by (simp add: newMockInterface_def Map_size_def)

section \<open>Round trip through the adapter\<close>

text \<open>
  C7. On a live adapter, for every key \<open>k\<close> and every structurally copyable value \<open>v\<close>
  (its objects lie in the heap as it is, below the region): \<open>setItemSync k v\<close> succeeds and
  keeps its copy in a region of the heap that it allocates (the addresses from the old
  length of the heap up to the new one). That region stays intact when any cell outside
  it is overwritten. Whenever the region is intact, \<open>getItemSync k\<close> returns a value \<open>r\<close>
  that is deep-equal to \<open>v\<close> as it was when it was stored (it unfolds like it to every
  depth, and is a copy of it object for object), all of whose objects were allocated by
  this very call (beyond the region, so that it shares no object with \<open>v\<close> or with the
  stored copy), and which is not \<open>v\<close> when \<open>v\<close> is an object; the call changes nothing in
  the map and leaves the region intact, and so does overwriting any object of \<open>v\<close> or of
  \<open>r\<close> afterwards. So neither a mutation of \<open>v\<close> after storing nor a mutation of a returned
  value changes what later \<open>getItem\<close> calls return.
\<close>

theorem roundtrip_deep_copy:
  assumes live: "\<not> isDeleted w" and copyable: "copyable (heap w) v"
  shows "objects (heap w) v \<subseteq> {..< length (heap w)} \<and>
    (\<exists>w1. setItemSync k v w = Inr w1 \<and> length (heap w) \<le> length (heap w1) \<and>
     intact (length (heap w)) (length (heap w1)) (heap w1) (heap w1) \<and>
     (\<forall>h''. intact (length (heap w)) (length (heap w1)) (heap w1) h'' \<longrightarrow>
        (\<forall>a c. a < length (heap w) \<or> length (heap w1) \<le> a \<longrightarrow>
           intact (length (heap w)) (length (heap w1)) (heap w1) (h''[a := c])) \<and>
        (\<exists>r w2. getItemSync k (w1\<lparr>heap := h''\<rparr>) = Inr (r, w2) \<and>
           (\<forall>n. unfold n (heap w2) r = unfold n (heap w) v) \<and>
           (\<exists>m. copyOf m (heap w) v (heap w2) r) \<and>
           objects (heap w2) r \<subseteq> {length h'' ..< length (heap w2)} \<and>
           (\<forall>b. v = Ref b \<longrightarrow> r \<noteq> v) \<and>
           storage w2 = storage w1 \<and> \<not> isDeleted w2 \<and>
           intact (length (heap w)) (length (heap w1)) (heap w1) (heap w2) \<and>
           (\<forall>a \<in> objects (heap w) v \<union> objects (heap w2) r. \<forall>c.
              intact (length (heap w)) (length (heap w1)) (heap w1) ((heap w2)[a := c])))))"
proof -
  let ?lo = "length (heap w)"
  from copyable_structuredClone [OF copyable] obtain h1 v1 where
    s1: "structuredClone (heap w) v = Inr (h1, v1)" by blast
  define w1 where "w1 = w\<lparr>heap := h1, storage := Map_set (storage w) k v1\<rparr>"
  have set: "setItemSync k v w = Inr w1"
    using live s1 by (simp add: setItemSync_def checkStorage_def w1_def)
  have hw1: "heap w1 = h1" and sw1: "storage w1 = Map_set (storage w) k v1"
    and lw1: "\<not> isDeleted w1"
    using live by (simp_all add: w1_def)
  from structuredClone_prefix [OF s1] have le1: "?lo \<le> length h1" by simp
  from structuredClone_copyOf(1) [OF s1] obtain m1 where
    c1: "copyOf m1 (heap w) v h1 v1" and r1: "m1 ` objects (heap w) v \<subseteq> {?lo ..< length h1}"
    by blast
  have below: "objects (heap w) v \<subseteq> {..< ?lo}"
    using copyable by (auto simp: copyable_def)
  have get: "\<exists>r w2. getItemSync k (w1\<lparr>heap := h''\<rparr>) = Inr (r, w2) \<and>
           (\<forall>n. unfold n (heap w2) r = unfold n (heap w) v) \<and>
           (\<exists>m. copyOf m (heap w) v (heap w2) r) \<and>
           objects (heap w2) r \<subseteq> {length h'' ..< length (heap w2)} \<and>
           (\<forall>b. v = Ref b \<longrightarrow> r \<noteq> v) \<and>
           storage w2 = storage w1 \<and> \<not> isDeleted w2 \<and>
           intact ?lo (length h1) h1 (heap w2) \<and>
           (\<forall>a \<in> objects (heap w) v \<union> objects (heap w2) r. \<forall>c.
              intact ?lo (length h1) h1 ((heap w2)[a := c]))"
    if i: "intact ?lo (length h1) h1 h''" for h''
  proof -
    from i have len: "length h1 \<le> length h''"
      and same: "\<forall>a. ?lo \<le> a \<and> a < length h1 \<longrightarrow> h'' ! a = h1 ! a"
      by (simp_all add: intact_def)
    have "\<forall>b \<in> m1 ` objects (heap w) v. b < length h'' \<and> h'' ! b = h1 ! b"
      using r1 len same by auto
    with c1 have c1': "copyOf m1 (heap w) v h'' v1" by (rule copyOf_cong)
    from c1' copyable have cp1: "copyable h'' v1" by (rule copyOf_copyable)
    from copyable_structuredClone [OF cp1] obtain h2 r where
      s2: "structuredClone h'' v1 = Inr (h2, r)" by blast
    define w2 where "w2 = w1\<lparr>heap := h2\<rparr>"
    have g: "getItemSync k (w1\<lparr>heap := h''\<rparr>) = Inr (r, w2)"
      using lw1 s2 by (simp add: getItemSync_def checkStorage_def sw1 Map_get_set w2_def)
    from structuredClone_prefix [OF s2] have le2: "length h'' \<le> length h2"
      and pre2: "\<forall>x < length h''. h2 ! x = h'' ! x" by simp_all
    from structuredClone_copyOf(1) [OF s2] obtain m2 where
      c2: "copyOf m2 h'' v1 h2 r" and r2: "m2 ` objects h'' v1 \<subseteq> {length h'' ..< length h2}"
      by blast
    from c1' c2 have c12: "copyOf (m2 \<circ> m1) (heap w) v h2 r" by (rule copyOf_trans)
    then have deep: "\<forall>n. unfold n h2 r = unfold n (heap w) v"
      by (simp add: copyOf_unfold)
    from copyOf_objects [OF c2] r2 have fresh: "objects h2 r \<subseteq> {length h'' ..< length h2}"
      by simp
    have ne: "\<forall>b. v = Ref b \<longrightarrow> r \<noteq> v"
    proof (intro allI impI notI)
      fix b assume v: "v = Ref b" and rv: "r = v"
      from v have "b \<in> objects (heap w) v" by (rule objects.root)
      with below have "b < ?lo" by auto
      moreover from rv v have "b \<in> objects h2 r" by (auto intro: objects.root)
      with fresh have "length h'' \<le> b" by auto
      ultimately show False using le1 len by simp
    qed
    have i2: "intact ?lo (length h1) h1 h2"
      unfolding intact_def using len le2 pre2 same by auto
    have mut: "\<forall>a \<in> objects (heap w) v \<union> objects h2 r. \<forall>c. intact ?lo (length h1) h1 (h2[a := c])"
    proof (intro ballI allI)
      fix a c assume "a \<in> objects (heap w) v \<union> objects h2 r"
      with below fresh len have "a < ?lo \<or> length h1 \<le> a" by auto
      with i2 show "intact ?lo (length h1) h1 (h2[a := c])" by (rule intact_update)
    qed
    from g deep c12 fresh ne i2 mut lw1 show ?thesis
      by (intro exI [of _ r] exI [of _ w2]) (auto simp: w2_def)
  qed
  have upd: "intact ?lo (length h1) h1 (h''[a := c])"
    if "intact ?lo (length h1) h1 h''" "a < ?lo \<or> length h1 \<le> a"
    for h'' a c
    using that by (rule intact_update)
  have "\<exists>w1. setItemSync k v w = Inr w1 \<and> length (heap w) \<le> length (heap w1) \<and>
     intact (length (heap w)) (length (heap w1)) (heap w1) (heap w1) \<and>
     (\<forall>h''. intact (length (heap w)) (length (heap w1)) (heap w1) h'' \<longrightarrow>
        (\<forall>a c. a < length (heap w) \<or> length (heap w1) \<le> a \<longrightarrow>
           intact (length (heap w)) (length (heap w1)) (heap w1) (h''[a := c])) \<and>
        (\<exists>r w2. getItemSync k (w1\<lparr>heap := h''\<rparr>) = Inr (r, w2) \<and>
           (\<forall>n. unfold n (heap w2) r = unfold n (heap w) v) \<and>
           (\<exists>m. copyOf m (heap w) v (heap w2) r) \<and>
           objects (heap w2) r \<subseteq> {length h'' ..< length (heap w2)} \<and>
           (\<forall>b. v = Ref b \<longrightarrow> r \<noteq> v) \<and>
           storage w2 = storage w1 \<and> \<not> isDeleted w2 \<and>
           intact (length (heap w)) (length (heap w1)) (heap w1) (heap w2) \<and>
           (\<forall>a \<in> objects (heap w) v \<union> objects (heap w2) r. \<forall>c.
              intact (length (heap w)) (length (heap w1)) (heap w1) ((heap w2)[a := c]))))"
  proof (rule exI [of _ w1], unfold hw1, intro conjI allI impI)
    show "setItemSync k v w = Inr w1" by (rule set)
    show "?lo \<le> length h1" by (rule le1)
    show "intact ?lo (length h1) h1 h1" by (rule intact_refl)
  next
    fix h'' a c
    assume "intact ?lo (length h1) h1 h''" "a < ?lo \<or> length h1 \<le> a"
    then show "intact ?lo (length h1) h1 (h''[a := c])" by (rule upd)
  next
    fix h''
    assume "intact ?lo (length h1) h1 h''"
    then show "\<exists>r w2. getItemSync k (w1\<lparr>heap := h''\<rparr>) = Inr (r, w2) \<and>
           (\<forall>n. unfold n (heap w2) r = unfold n (heap w) v) \<and>
           (\<exists>m. copyOf m (heap w) v (heap w2) r) \<and>
           objects (heap w2) r \<subseteq> {length h'' ..< length (heap w2)} \<and>
           (\<forall>b. v = Ref b \<longrightarrow> r \<noteq> v) \<and>
           storage w2 = storage w1 \<and> \<not> isDeleted w2 \<and>
           intact ?lo (length h1) h1 (heap w2) \<and>
           (\<forall>a \<in> objects (heap w) v \<union> objects (heap w2) r. \<forall>c.
              intact ?lo (length h1) h1 ((heap w2)[a := c]))"
      by (rule get)
  qed
  with below show ?thesis by blast
qed

theorem roundtrip_deep_copy_witness:
  "\<not> isDeleted (newMockInterface
       [Cell (ObjectShape [''self'', ''c'', ''d'']) [Ref 0, Ref 1, Ref 1],
        Cell ArrayShape [Prim (Number 40), Prim (Number 42)]]) \<and>
   copyable
       [Cell (ObjectShape [''self'', ''c'', ''d'']) [Ref 0, Ref 1, Ref 1],
        Cell ArrayShape [Prim (Number 40), Prim (Number 42)]] (Ref 0) \<and>
   (\<exists>w1. setItemSync ''value'' (Ref 0) (newMockInterface
       [Cell (ObjectShape [''self'', ''c'', ''d'']) [Ref 0, Ref 1, Ref 1],
        Cell ArrayShape [Prim (Number 40), Prim (Number 42)]]) = Inr w1 \<and>
      (\<exists>r w2. getItemSync ''value''
           (w1\<lparr>heap := (heap w1)[1 := Cell ArrayShape [Prim (Number 30)]]\<rparr>) = Inr (r, w2) \<and>
         (\<forall>n. unfold n (heap w2) r =
            unfold n [Cell (ObjectShape [''self'', ''c'', ''d'']) [Ref 0, Ref 1, Ref 1],
                      Cell ArrayShape [Prim (Number 40), Prim (Number 42)]] (Ref 0)) \<and>
         objects (heap w2) r \<subseteq> {length (heap w1) ..< length (heap w2)}))"
proof -
  let ?H = "[Cell (ObjectShape [''self'', ''c'', ''d'']) [Ref 0, Ref 1, Ref 1],
             Cell ArrayShape [Prim (Number 40), Prim (Number 42)]]"
  let ?W = "newMockInterface ?H"
  have live: "\<not> isDeleted ?W"
    by (simp add: newMockInterface_def)
  have hW: "heap ?W = ?H"
    by (simp add: newMockInterface_def)
  have "structuredClone ?H (Ref 0) =
      Inr (?H @ [Cell (ObjectShape [''self'', ''c'', ''d'']) [Ref 2, Ref 3, Ref 3],
                 Cell ArrayShape [Prim (Number 40), Prim (Number 42)]], Ref 2)"
    by (simp add: structuredClone_def)
  then have cp: "copyable ?H (Ref 0)"
    by (rule structuredClone_copyOf(2))
  then have cpW: "copyable (heap ?W) (Ref 0)"
    by (simp only: hW)
  from roundtrip_deep_copy [OF live cpW, of "''value''", THEN conjunct2]
  obtain w1 where s: "setItemSync ''value'' (Ref 0) ?W = Inr w1"
    and i: "intact (length (heap ?W)) (length (heap w1)) (heap w1) (heap w1)"
    and rest: "\<And>h''. intact (length (heap ?W)) (length (heap w1)) (heap w1) h'' \<Longrightarrow>
        (\<forall>a c. a < length (heap ?W) \<or> length (heap w1) \<le> a \<longrightarrow>
           intact (length (heap ?W)) (length (heap w1)) (heap w1) (h''[a := c])) \<and>
        (\<exists>r w2. getItemSync ''value'' (w1\<lparr>heap := h''\<rparr>) = Inr (r, w2) \<and>
           (\<forall>n. unfold n (heap w2) r = unfold n (heap ?W) (Ref 0)) \<and>
           (\<exists>m. copyOf m (heap ?W) (Ref 0) (heap w2) r) \<and>
           objects (heap w2) r \<subseteq> {length h'' ..< length (heap w2)} \<and>
           (\<forall>b. Ref 0 = Ref b \<longrightarrow> r \<noteq> Ref 0) \<and>
           storage w2 = storage w1 \<and> \<not> isDeleted w2 \<and>
           intact (length (heap ?W)) (length (heap w1)) (heap w1) (heap w2) \<and>
           (\<forall>a \<in> objects (heap ?W) (Ref 0) \<union> objects (heap w2) r. \<forall>c.
              intact (length (heap ?W)) (length (heap w1)) (heap w1) ((heap w2)[a := c])))"
    by blast
  have lt: "(1::nat) < length (heap ?W) \<or> length (heap w1) \<le> 1"
    by (simp add: newMockInterface_def)
  have i': "intact (length (heap ?W)) (length (heap w1)) (heap w1)
       ((heap w1)[1 := Cell ArrayShape [Prim (Number 30)]])"
    by (rule rest [OF i, THEN conjunct1, rule_format, OF lt])
  from rest [OF i'] obtain r w2 where
    g: "getItemSync ''value''
          (w1\<lparr>heap := (heap w1)[1 := Cell ArrayShape [Prim (Number 30)]]\<rparr>) = Inr (r, w2)"
    and d: "\<forall>n. unfold n (heap w2) r = unfold n (heap ?W) (Ref 0)"
    and f: "objects (heap w2) r \<subseteq>
        {length ((heap w1)[1 := Cell ArrayShape [Prim (Number 30)]]) ..< length (heap w2)}"
    by blast
  from d have d': "\<forall>n. unfold n (heap w2) r = unfold n ?H (Ref 0)"
    unfolding hW .
  from f have f': "objects (heap w2) r \<subseteq> {length (heap w1) ..< length (heap w2)}"
    by simp
  from live cp s g d' f' show ?thesis by blast
qed

text \<open>The value of this example has a cycle (\<open>self\<close>) and a shared object (\<open>c\<close> and \<open>d\<close> are
  the same array); its clone has both.\<close>

lemma structuredClone_cycle_and_sharing:
  "structuredClone
     [Cell (ObjectShape [''self'', ''c'', ''d'']) [Ref 0, Ref 1, Ref 1],
      Cell ArrayShape [Prim (Number 40), Prim (Number 42)]] (Ref 0) =
   Inr ([Cell (ObjectShape [''self'', ''c'', ''d'']) [Ref 0, Ref 1, Ref 1],
         Cell ArrayShape [Prim (Number 40), Prim (Number 42)],
         Cell (ObjectShape [''self'', ''c'', ''d'']) [Ref 2, Ref 3, Ref 3],
         Cell ArrayShape [Prim (Number 40), Prim (Number 42)]], Ref 2)"
  by (simp add: structuredClone_def)

section \<open>Insertion order\<close>

text \<open>
  C8. On a live adapter: (1) a sequence of \<open>setItem\<close> calls with cloneable values on
  distinct keys that are not in the map yet appends these keys in the order of the calls,
  so that \<open>keySync i\<close> for each \<open>i\<close> below the size yields the old keys followed by the new
  ones in first-insertion order (on a new adapter: exactly the keys of the calls);
  (2) \<open>setItem\<close> on a key that is present changes neither the order nor any \<open>keySync\<close>
  result; (3) after \<open>removeItem k\<close>, and any \<open>setItem\<close> calls on other keys, \<open>setItem k\<close>
  puts \<open>k\<close> at the end.
\<close>

theorem insertion_order:
  "(\<not> isDeleted w \<and> (\<forall>u \<in> snd ` set kvs. copyable (heap w) u) \<and>
    distinct (map fst kvs) \<and> set (map fst kvs) \<inter> set (Map_keys (storage w)) = {} \<longrightarrow>
      (\<exists>w'. setItems kvs w = Inr w' \<and>
         sizeSync w' = Inr (length (Map_keys (storage w) @ map fst kvs)) \<and>
         (\<forall>i < length (Map_keys (storage w) @ map fst kvs).
            keySync (int i) w' = Inr (Some ((Map_keys (storage w) @ map fst kvs) ! i))))) \<and>
   (\<not> isDeleted w \<and> copyable (heap w) v \<and> k \<in> set (Map_keys (storage w)) \<longrightarrow>
      (\<exists>w'. setItemSync k v w = Inr w' \<and> Map_keys (storage w') = Map_keys (storage w) \<and>
         (\<forall>i. keySync i w' = keySync i w))) \<and>
   (\<not> isDeleted w \<and> removeItemSync k w = Inr w1 \<and> setItems kvs w1 = Inr w2 \<and>
    k \<notin> fst ` set kvs \<and> copyable (heap w2) v \<longrightarrow>
      (\<exists>w3. setItemSync k v w2 = Inr w3 \<and>
         Map_keys (storage w3) = Map_keys (storage w2) @ [k] \<and>
         sizeSync w3 = Inr (Suc (length (Map_keys (storage w2)))) \<and>
         keySync (int (length (Map_keys (storage w2)))) w3 = Inr (Some k)))"
proof (intro conjI impI)
  assume a: "\<not> isDeleted w \<and> (\<forall>u \<in> snd ` set kvs. copyable (heap w) u) \<and>
    distinct (map fst kvs) \<and> set (map fst kvs) \<inter> set (Map_keys (storage w)) = {}"
  then obtain w' where s: "setItems kvs w = Inr w'" and l: "\<not> isDeleted w'"
    and ks: "Map_keys (storage w') = Map_keys (storage w) @ map fst kvs"
    using setItems_fresh_keys [of w kvs] by blast
  have "sizeSync w' = Inr (length (Map_keys (storage w) @ map fst kvs))"
    using sizeSync_live [OF l] ks by simp
  moreover have "\<forall>i < length (Map_keys (storage w) @ map fst kvs).
      keySync (int i) w' = Inr (Some ((Map_keys (storage w) @ map fst kvs) ! i))"
    using keySync_live [OF l] ks by simp
  ultimately show "\<exists>w'. setItems kvs w = Inr w' \<and>
         sizeSync w' = Inr (length (Map_keys (storage w) @ map fst kvs)) \<and>
         (\<forall>i < length (Map_keys (storage w) @ map fst kvs).
            keySync (int i) w' = Inr (Some ((Map_keys (storage w) @ map fst kvs) ! i)))"
    using s by blast
next
  assume a: "\<not> isDeleted w \<and> copyable (heap w) v \<and> k \<in> set (Map_keys (storage w))"
  then obtain w' where s: "setItemSync k v w = Inr w'" and l: "\<not> isDeleted w'"
    and ks: "Map_keys (storage w') = Map_keys (storage w)"
    using setItemSync_live [of w v k] by auto
  have "\<forall>i. keySync i w' = keySync i w"
    using a l ks by (simp add: keySync_keys)
  with s ks show "\<exists>w'. setItemSync k v w = Inr w' \<and> Map_keys (storage w') = Map_keys (storage w) \<and>
         (\<forall>i. keySync i w' = keySync i w)"
    by blast
next
  assume a: "\<not> isDeleted w \<and> removeItemSync k w = Inr w1 \<and> setItems kvs w1 = Inr w2 \<and>
    k \<notin> fst ` set kvs \<and> copyable (heap w2) v"
  then have w1: "w1 = w\<lparr>storage := Map_delete (storage w) k\<rparr>"
    using removeItemSync_live [of w k] by simp
  have "k \<notin> set (Map_keys (storage w1))"
    unfolding w1 by (simp add: Map_keys_delete)
  with a have nk: "k \<notin> set (Map_keys (storage w2))"
    using setItems_keys_set [of kvs w1 w2] by simp
  have l2: "\<not> isDeleted w2"
    using a setItems_latch [of kvs w1 w2] by (simp add: w1)
  from a have t: "copyable (heap w2) v" by simp
  from setItemSync_live [OF l2 t, of k] nk
  obtain w3 where s: "setItemSync k v w2 = Inr w3" and l3: "\<not> isDeleted w3"
    and ks: "Map_keys (storage w3) = Map_keys (storage w2) @ [k]"
    by auto
  have "sizeSync w3 = Inr (Suc (length (Map_keys (storage w2))))"
    using sizeSync_live [OF l3] ks by simp
  moreover have "keySync (int (length (Map_keys (storage w2)))) w3 = Inr (Some k)"
    using keySync_live [OF l3, of "length (Map_keys (storage w2))"] ks by simp
  ultimately show "\<exists>w3. setItemSync k v w2 = Inr w3 \<and>
         Map_keys (storage w3) = Map_keys (storage w2) @ [k] \<and>
         sizeSync w3 = Inr (Suc (length (Map_keys (storage w2)))) \<and>
         keySync (int (length (Map_keys (storage w2)))) w3 = Inr (Some k)"
    using s ks by blast
qed

theorem insertion_order_witness:
  "setItems [(''a'', Prim (Number 1)), (''b'', Prim (Number 2))] (newMockInterface []) =
     Inr \<lparr>heap = [], storageName = [], isDeleted = False,
          storage = [(''a'', Prim (Number 1)), (''b'', Prim (Number 2))]\<rparr> \<and>
   (\<exists>w'. setItems [(''a'', Prim (Number 1)), (''b'', Prim (Number 2))] (newMockInterface []) = Inr w' \<and>
      sizeSync w' = Inr 2 \<and> keySync 0 w' = Inr (Some ''a'') \<and> keySync 1 w' = Inr (Some ''b'')) \<and>
   (\<exists>w'. setItemSync ''a'' (Prim (Number 3))
        \<lparr>heap = [], storageName = [], isDeleted = False,
         storage = [(''a'', Prim (Number 1)), (''b'', Prim (Number 2))]\<rparr> = Inr w' \<and>
      Map_keys (storage w') = [''a'', ''b'']) \<and>
   removeItemSync ''a''
        \<lparr>heap = [], storageName = [], isDeleted = False,
         storage = [(''a'', Prim (Number 1)), (''b'', Prim (Number 2))]\<rparr> =
     Inr \<lparr>heap = [], storageName = [], isDeleted = False,
          storage = [(''b'', Prim (Number 2))]\<rparr> \<and>
   (\<exists>w3. setItemSync ''a'' (Prim (Number 3))
        \<lparr>heap = [], storageName = [], isDeleted = False,
         storage = [(''b'', Prim (Number 2))]\<rparr> = Inr w3 \<and>
      Map_keys (storage w3) = [''b'', ''a''] \<and> keySync 1 w3 = Inr (Some ''a''))"
proof -
  let ?ab = "\<lparr>heap = [], storageName = [], isDeleted = False,
         storage = [(''a'', Prim (Number 1)), (''b'', Prim (Number 2))]\<rparr>"
  let ?b = "\<lparr>heap = [], storageName = [], isDeleted = False,
         storage = [(''b'', Prim (Number 2))]\<rparr>"
  have h: "\<not> isDeleted (newMockInterface []) \<and>
      (\<forall>u \<in> snd ` set [(''a'', Prim (Number 1)), (''b'', Prim (Number 2))].
         copyable (heap (newMockInterface [])) u) \<and>
      distinct (map fst [(''a'', Prim (Number 1)), (''b'', Prim (Number 2))]) \<and>
      set (map fst [(''a'', Prim (Number 1)), (''b'', Prim (Number 2))]) \<inter>
        set (Map_keys (storage (newMockInterface []))) = {}"
    by (simp add: newMockInterface_def Map_keys_def copyable_Prim)
  from insertion_order [of "newMockInterface []"
      "[(''a'', Prim (Number 1)), (''b'', Prim (Number 2))]", THEN conjunct1, rule_format, OF h]
  obtain w' where s: "setItems [(''a'', Prim (Number 1)), (''b'', Prim (Number 2))]
        (newMockInterface []) = Inr w'"
    and sz: "sizeSync w' = Inr (length (Map_keys (storage (newMockInterface [])) @
        map fst [(''a'', Prim (Number 1)), (''b'', Prim (Number 2))]))"
    and ks: "\<And>i. i < length (Map_keys (storage (newMockInterface [])) @
        map fst [(''a'', Prim (Number 1)), (''b'', Prim (Number 2))]) \<Longrightarrow>
      keySync (int i) w' = Inr (Some ((Map_keys (storage (newMockInterface [])) @
        map fst [(''a'', Prim (Number 1)), (''b'', Prim (Number 2))]) ! i))"
    by blast
  have "sizeSync w' = Inr 2" "keySync 0 w' = Inr (Some ''a'')" "keySync 1 w' = Inr (Some ''b'')"
    using sz ks [of 0] ks [of 1] by (simp_all add: newMockInterface_def Map_keys_def)
  with s have 1: "\<exists>w'. setItems [(''a'', Prim (Number 1)), (''b'', Prim (Number 2))]
        (newMockInterface []) = Inr w' \<and>
      sizeSync w' = Inr 2 \<and> keySync 0 w' = Inr (Some ''a'') \<and> keySync 1 w' = Inr (Some ''b'')"
    by blast
  have h2: "\<not> isDeleted ?ab \<and> copyable (heap ?ab) (Prim (Number 3)) \<and>
      ''a'' \<in> set (Map_keys (storage ?ab))"
    by (simp add: Map_keys_def copyable_Prim)
  from insertion_order [of ?ab "[]" "Prim (Number 3)" "''a''" ?b ?b,
      THEN conjunct2, THEN conjunct1, rule_format, OF h2]
  have 2: "\<exists>w'. setItemSync ''a'' (Prim (Number 3)) ?ab = Inr w' \<and>
      Map_keys (storage w') = [''a'', ''b'']"
    by (auto simp: Map_keys_def)
  have h3: "\<not> isDeleted ?ab \<and> removeItemSync ''a'' ?ab = Inr ?b \<and> setItems [] ?b = Inr ?b \<and>
      ''a'' \<notin> fst ` set ([] :: (string \<times> jsval) list) \<and>
      copyable (heap ?b) (Prim (Number 3))"
    by (simp add: copyable_Prim removeItemSync_def checkStorage_def Map_delete_def)
  from insertion_order [of ?ab "[]" "Prim (Number 3)" "''a''" ?b ?b,
      THEN conjunct2, THEN conjunct2, rule_format, OF h3]
  have 3: "\<exists>w3. setItemSync ''a'' (Prim (Number 3)) ?b = Inr w3 \<and>
      Map_keys (storage w3) = [''b'', ''a''] \<and> keySync 1 w3 = Inr (Some ''a'')"
    by (auto simp: Map_keys_def)
  show ?thesis
    using 1 2 3
    by (simp add: newMockInterface_def setItemSync_def removeItemSync_def checkStorage_def
        structuredClone_def Map_delete_def)
qed

section \<open>The contract of the harness\<close>



text \<open>
  Outside these conditions, on a live adapter: the action of a deferred \<open>setItem\<close> of a
  function throws the \<open>DataCloneError\<close> of \<^verbatim>\<open>structuredClone\<close> inside the timer callback,
  where nothing catches it, and the promise stays pending. The synchronous \<open>setItem\<close>
  throws the same error to its caller.
\<close>

lemma setItemAsync_function_pending:
  "setItemAsync ''k'' (Fun ''f'') (newMockInterface []) =
     Inr (\<lparr>resolve = Some Ok, reject = None, action = Some (SetAction ''k'' (Fun ''f'')),
           delay = None\<rparr>, newMockInterface []) \<and>
   wait \<lparr>resolve = Some Ok, reject = None, action = Some (SetAction ''k'' (Fun ''f'')),
         delay = None\<rparr> (newMockInterface []) =
     \<lparr>settled = Pending, uncaught = Some DataCloneError, final = newMockInterface []\<rparr> \<and>
   setItemSync ''k'' (Fun ''f'') (newMockInterface []) = Inl DataCloneError"
  by (simp add: eval_defs)

section \<open>Asynchronous reads are snapshots\<close>

text \<open>
  C10. \<open>getItemAsync\<close>, \<open>sizeAsync\<close> and \<open>keyAsync\<close> compute the payload when they are
  called, on the adapter \<open>w\<close> of that moment: the clone of the stored value (deep-equal
  to the stored value as it is then), the size, the key at the index. Whatever adapter \<open>w'\<close> the
  timer finds when it fires, with whatever map, as long as it is live the promise is
  fulfilled with that payload.
\<close>

theorem async_reads_snapshot:
  "\<not> isDeleted w' \<Longrightarrow>
   (\<forall>h1 v. structuredClone (heap w) (Map_get (storage w) key) = Inr (h1, v) \<longrightarrow>
      (\<forall>n. unfold n h1 v = unfold n (heap w) (Map_get (storage w) key)) \<and>
      (\<exists>d. getItemAsync key w = Inr (d, w\<lparr>heap := h1\<rparr>) \<and>
           settled (wait d w') = Fulfilled (Val v))) \<and>
   (\<exists>d. sizeAsync w = Inr (d, w) \<and>
      settled (wait d w') = Fulfilled (Val (Prim (Number (int (Map_size (storage w))))))) \<and>
   (\<exists>d. keyAsync index w = Inr (d, w) \<and>
      settled (wait d w') = Fulfilled (Val (keyValue (keyAt (storage w) index))))"
  by (auto simp: getItemAsync_def sizeAsync_def keyAsync_def resolving_def wait_def
      structuredClone_unfold)

theorem async_reads_snapshot_witness:
  "\<not> isDeleted (newMockInterface []) \<and>
   getItemAsync ''value'' \<lparr>heap = [], storageName = [], isDeleted = False,
       storage = [(''value'', Prim (Number 42))]\<rparr> =
     Inr (resolving (Val (Prim (Number 42))) None,
          \<lparr>heap = [], storageName = [], isDeleted = False,
           storage = [(''value'', Prim (Number 42))]\<rparr>) \<and>
   settled (wait (resolving (Val (Prim (Number 42))) None) (newMockInterface [])) =
     Fulfilled (Val (Prim (Number 42))) \<and>
   (\<exists>d. sizeAsync \<lparr>heap = [], storageName = [], isDeleted = False,
       storage = [(''value'', Prim (Number 42))]\<rparr> =
       Inr (d, \<lparr>heap = [], storageName = [], isDeleted = False,
                storage = [(''value'', Prim (Number 42))]\<rparr>) \<and>
     settled (wait d (newMockInterface [])) = Fulfilled (Val (Prim (Number 1)))) \<and>
   (\<exists>d. keyAsync 0 \<lparr>heap = [], storageName = [], isDeleted = False,
       storage = [(''value'', Prim (Number 42))]\<rparr> =
       Inr (d, \<lparr>heap = [], storageName = [], isDeleted = False,
                storage = [(''value'', Prim (Number 42))]\<rparr>) \<and>
     settled (wait d (newMockInterface [])) = Fulfilled (Val (Prim (String ''value''))))"
  using async_reads_snapshot [of "newMockInterface []"
      "\<lparr>heap = [], storageName = [], isDeleted = False,
        storage = [(''value'', Prim (Number 42))]\<rparr>" "''value''" 0]
  by (simp add: eval_defs)

end
